theory Spec2Isabelle
  imports Main "HOL-Library.Multiset"
begin

section \<open>Continual-learning training scheduler (train.py, train_cl)\<close>

text \<open>
  The development follows \<^verbatim>\<open>train_cl\<close> of \<^verbatim>\<open>train.py\<close>. Python exceptions are values
  of the type \<open>error\<close>; task indices, class counts and list positions are natural numbers
  (the task index comes from \<^verbatim>\<open>enumerate(train_datasets, 1)\<close>), the configured replay
  batch size is an unbounded integer. Tensors are lists (one dimension) or a width
  with a list of rows (two dimensions); their entries are kept abstract, so nothing
  here depends on floating-point rounding.
\<close>

datatype error =
    StopIteration
  | IndexError
  | KeyError
  | TypeError
  | RuntimeError
  | AttributeError
  | ZeroDivisionError
  | ValueError
  | NameError

subsection \<open>Two-dimensional tensors\<close>

record 'a tensor2 =
  size1 :: nat
  rows :: "'a list list"

definition size0 :: "'a tensor2 \<Rightarrow> nat" where
  "size0 t = length (rows t)"

definition wf_tensor2 :: "'a tensor2 \<Rightarrow> bool" where
  "wf_tensor2 t = list_all (\<lambda>r. length r = size1 t) (rows t)"

text \<open>\<^verbatim>\<open>t[:, :k]\<close> for a non-negative \<open>k\<close>.\<close>

definition slice_cols :: "nat \<Rightarrow> 'a tensor2 \<Rightarrow> 'a tensor2" where
  "slice_cols k t = \<lparr>size1 = min k (size1 t), rows = map (take k) (rows t)\<rparr>"

text \<open>\<^verbatim>\<open>torch.zeros_like(t)\<close>.\<close>

definition zeros_like :: "'a::zero tensor2 \<Rightarrow> 'a tensor2" where
  "zeros_like t = \<lparr>size1 = size1 t, rows = map (\<lambda>r. replicate (length r) 0) (rows t)\<rparr>"

text \<open>
  Broadcasting of the right-hand side of a slice assignment: a dimension of the source
  must equal that of the target or be 1, otherwise torch raises a RuntimeError.
\<close>

definition broadcast_to :: "nat \<Rightarrow> 'b list \<Rightarrow> error + 'b list" where
  "broadcast_to n xs =
     (if length xs = n then Inr xs
      else if length xs = 1 then Inr (replicate n (hd xs))
      else Inl RuntimeError)"

fun broadcast_rows :: "nat \<Rightarrow> 'a list list \<Rightarrow> error + 'a list list" where
  "broadcast_rows w [] = Inr []"
| "broadcast_rows w (r # rs) =
     (case broadcast_to w r of
        Inl e \<Rightarrow> Inl e
      | Inr r' \<Rightarrow> (case broadcast_rows w rs of Inl e \<Rightarrow> Inl e | Inr rs' \<Rightarrow> Inr (r' # rs')))"

text \<open>\<^verbatim>\<open>dst[:, :k] = src\<close>: the first \<open>min k (size1 dst)\<close> columns of every row are overwritten.\<close>

definition assign_cols :: "nat \<Rightarrow> 'a tensor2 \<Rightarrow> 'a tensor2 \<Rightarrow> error + 'a tensor2" where
  "assign_cols k dst src =
     (let w = min k (size1 dst) in
      if size1 src \<noteq> w \<and> size1 src \<noteq> 1 then Inl RuntimeError
      else
        case broadcast_rows w (rows src) of
          Inl e \<Rightarrow> Inl e
        | Inr src_rows \<Rightarrow>
            (case broadcast_to (size0 dst) src_rows of
               Inl e \<Rightarrow> Inl e
             | Inr src_rows' \<Rightarrow>
                 Inr (dst\<lparr>rows := map2 (\<lambda>s d. s @ drop w d) src_rows' (rows dst)\<rparr>)))"

subsection \<open>Replay Sampler: requests to a conditional generator (lines 242-252)\<close>

text \<open>\<^verbatim>\<open>int(np.ceil(a / b))\<close> for a positive divisor.\<close>

definition ceil_div :: "int \<Rightarrow> int \<Rightarrow> int" where
  "ceil_div a b = - ((- a) div b)"

definition batch_size_replay_to_use :: "int \<Rightarrow> nat \<Rightarrow> int" where
  "batch_size_replay_to_use batch_size_replay task = ceil_div batch_size_replay (int task - 1)"

text \<open>
  One request \<open>(size, allowed_classes)\<close> to \<^verbatim>\<open>previous_generator.sample\<close> per pass of
  \<^verbatim>\<open>for task_id in range(task-1)\<close>.
\<close>

definition conditional_requests :: "int \<Rightarrow> nat \<Rightarrow> nat \<Rightarrow> (int \<times> nat list) list" where
  "conditional_requests batch_size_replay classes_per_task task =
     map (\<lambda>task_id.
            (batch_size_replay_to_use batch_size_replay task,
             [classes_per_task * task_id ..< classes_per_task * (task_id + 1)]))
         [0 ..< task - 1]"

definition total_requested :: "(int \<times> nat list) list \<Rightarrow> int" where
  "total_requested reqs = sum_list (map fst reqs)"

subsection \<open>Curation Engine: zero padding of the previous scores (lines 391-392)\<close>

definition padded_scores :: "'a::zero tensor2 \<Rightarrow> 'a tensor2 \<Rightarrow> error + 'a tensor2" where
  "padded_scores scores_old scores_new =
     assign_cols (size1 scores_old) (zeros_like scores_new) scores_old"

text \<open>Example score tensors of widths 4 and 6 over a pool of two candidates.\<close>

definition scores_old_ex :: "int tensor2" where
  "scores_old_ex = \<lparr>size1 = 4, rows = [[1, 2, 3, 4], [5, 6, 7, 8]]\<rparr>"

definition scores_new_ex :: "int tensor2" where
  "scores_new_ex = \<lparr>size1 = 6, rows = [[9, 9, 9, 9, 9, 9], [8, 8, 8, 8, 8, 8]]\<rparr>"

subsection \<open>Task Iterator Manager (lines 114-123, 179-218)\<close>

text \<open>
  Modelled from the spec: \<^verbatim>\<open>utils.get_data_loader(dataset, batch_size, drop_last=True)\<close>
  is not among the sources. Its iterator yields the batches of a shuffled copy of the
  dataset and drops the last, incomplete one, so that it has \<open>len(dataset) // batch_size\<close>
  batches. The shuffle is a parameter that threads the state of the random generator.
\<close>

function batches_drop_last :: "nat \<Rightarrow> 'b list \<Rightarrow> 'b list list" where
  "batches_drop_last bs xs =
     (if bs = 0 \<or> length xs < bs then []
      else take bs xs # batches_drop_last bs (drop bs xs))"
  by pat_completeness auto
termination
  by (relation "measure (\<lambda>(bs, xs). length xs)") auto

declare batches_drop_last.simps [simp del]

definition get_data_loader ::
  "('g \<Rightarrow> 'b list \<Rightarrow> 'b list \<times> 'g) \<Rightarrow> 'b list \<Rightarrow> nat \<Rightarrow> 'g \<Rightarrow> error + ('b list list \<times> 'g)" where
  "get_data_loader shuffle dataset batch_size g =
     (if batch_size = 0 then Inl ValueError
      else case shuffle g dataset of (xs, g') \<Rightarrow> Inr (batches_drop_last batch_size xs, g'))"

text \<open>
  One iterator with its counter: \<^verbatim>\<open>data_loader\<close> holds the batches that the current
  iterator has not yet yielded (\<open>None\<close> before the first one is made), \<^verbatim>\<open>iters_left\<close> is
  the counter of the source.
\<close>

record 'b task_iter =
  data_loader :: "'b list list option"
  iters_left :: int

definition new_task_iter :: "'b task_iter" where
  "new_task_iter = \<lparr>data_loader = None, iters_left = 1\<rparr>"

text \<open>Lines 183-186 and, per task, lines 191-196.\<close>

definition update_iter ::
  "('g \<Rightarrow> 'b list \<Rightarrow> 'b list \<times> 'g) \<Rightarrow> 'b list \<Rightarrow> nat \<Rightarrow> 'b task_iter \<Rightarrow> 'g
     \<Rightarrow> error + ('b task_iter \<times> 'g)" where
  "update_iter shuffle dataset batch_size it g =
     (let left = iters_left it - 1 in
      if left = 0 then
        (case get_data_loader shuffle dataset batch_size g of
           Inl e \<Rightarrow> Inl e
         | Inr (dl, g') \<Rightarrow> Inr (\<lparr>data_loader = Some dl, iters_left = int (length dl)\<rparr>, g'))
      else Inr (it\<lparr>iters_left := left\<rparr>, g))"

text \<open>\<^verbatim>\<open>next(data_loader)\<close>, lines 204 and 213.\<close>

definition next_batch :: "'b task_iter \<Rightarrow> error + ('b list \<times> 'b task_iter)" where
  "next_batch it =
     (case data_loader it of
        None \<Rightarrow> Inl TypeError
      | Some [] \<Rightarrow> Inl StopIteration
      | Some (b # rest) \<Rightarrow> Inr (b, it\<lparr>data_loader := Some rest\<rparr>))"

text \<open>One pass of the iteration loop in the mode with a single active task.\<close>

definition fetch_single ::
  "('g \<Rightarrow> 'b list \<Rightarrow> 'b list \<times> 'g) \<Rightarrow> 'b list \<Rightarrow> nat \<Rightarrow> 'b task_iter \<Rightarrow> 'g
     \<Rightarrow> error + ('b list \<times> 'b task_iter \<times> 'g)" where
  "fetch_single shuffle train_dataset batch_size it g =
     (case update_iter shuffle train_dataset batch_size it g of
        Inl e \<Rightarrow> Inl e
      | Inr (it', g') \<Rightarrow>
          (case next_batch it' of
             Inl e \<Rightarrow> Inl e
           | Inr (b, it'') \<Rightarrow> Inr (b, it'', g')))"

text \<open>
  The offline mode of the task-incremental scenario: one iterator per task so far; all
  counters are updated first (lines 190-196), then one batch is taken from each (lines
  212-218).
\<close>

definition offline_batch_size :: "nat \<Rightarrow> nat \<Rightarrow> nat" where
  "offline_batch_size batch_size task = nat (ceil_div (int batch_size) (int task))"

fun update_iters ::
  "('g \<Rightarrow> 'b list \<Rightarrow> 'b list \<times> 'g) \<Rightarrow> nat \<Rightarrow> ('b list \<times> 'b task_iter) list \<Rightarrow> 'g
     \<Rightarrow> error + ('b task_iter list \<times> 'g)" where
  "update_iters shuffle bs [] g = Inr ([], g)"
| "update_iters shuffle bs ((ds, it) # rest) g =
     (case update_iter shuffle ds bs it g of
        Inl e \<Rightarrow> Inl e
      | Inr (it', g') \<Rightarrow>
          (case update_iters shuffle bs rest g' of
             Inl e \<Rightarrow> Inl e
           | Inr (its', g'') \<Rightarrow> Inr (it' # its', g'')))"

fun next_batches :: "'b task_iter list \<Rightarrow> error + ('b list list \<times> 'b task_iter list)" where
  "next_batches [] = Inr ([], [])"
| "next_batches (it # its) =
     (case next_batch it of
        Inl e \<Rightarrow> Inl e
      | Inr (b, it') \<Rightarrow>
          (case next_batches its of
             Inl e \<Rightarrow> Inl e
           | Inr (bs, its') \<Rightarrow> Inr (b # bs, it' # its')))"

definition fetch_offline ::
  "('g \<Rightarrow> 'b list \<Rightarrow> 'b list \<times> 'g) \<Rightarrow> 'b list list \<Rightarrow> nat \<Rightarrow> nat \<Rightarrow> 'b task_iter list \<Rightarrow> 'g
     \<Rightarrow> error + ('b list list \<times> 'b task_iter list \<times> 'g)" where
  "fetch_offline shuffle train_datasets batch_size task its g =
     (case update_iters shuffle (offline_batch_size batch_size task)
             (zip (take task train_datasets) its) g of
        Inl e \<Rightarrow> Inl e
      | Inr (its', g') \<Rightarrow>
          (case next_batches its' of
             Inl e \<Rightarrow> Inl e
           | Inr (bs, its'') \<Rightarrow> Inr (bs, its'', g')))"

text \<open>The first \<open>n\<close> passes of the loop, in either mode; only the iterators are kept.\<close>

fun fetch_single_n ::
  "('g \<Rightarrow> 'b list \<Rightarrow> 'b list \<times> 'g) \<Rightarrow> 'b list \<Rightarrow> nat \<Rightarrow> nat \<Rightarrow> 'b task_iter \<Rightarrow> 'g
     \<Rightarrow> error + ('b task_iter \<times> 'g)" where
  "fetch_single_n shuffle ds bs 0 it g = Inr (it, g)"
| "fetch_single_n shuffle ds bs (Suc n) it g =
     (case fetch_single shuffle ds bs it g of
        Inl e \<Rightarrow> Inl e
      | Inr (b, it', g') \<Rightarrow> fetch_single_n shuffle ds bs n it' g')"

fun fetch_offline_n ::
  "('g \<Rightarrow> 'b list \<Rightarrow> 'b list \<times> 'g) \<Rightarrow> 'b list list \<Rightarrow> nat \<Rightarrow> nat \<Rightarrow> nat \<Rightarrow> 'b task_iter list \<Rightarrow> 'g
     \<Rightarrow> error + ('b task_iter list \<times> 'g)" where
  "fetch_offline_n shuffle dss bs task 0 its g = Inr (its, g)"
| "fetch_offline_n shuffle dss bs task (Suc n) its g =
     (case fetch_offline shuffle dss bs task its g of
        Inl e \<Rightarrow> Inl e
      | Inr (b, its', g') \<Rightarrow> fetch_offline_n shuffle dss bs task n its' g')"

text \<open>The number of batches an iterator can still yield without being rebuilt.\<close>

definition batches_left :: "'b task_iter \<Rightarrow> nat" where
  "batches_left it = (case data_loader it of None \<Rightarrow> 0 | Some dl \<Rightarrow> length dl)"

text \<open>
  Bookkeeping for the proofs: an iterator is \<open>counted\<close> between two passes of the loop
  (the counter is one more than the batches left) and \<open>loaded\<close> between the update of the
  counter and the call of \<^verbatim>\<open>next\<close>; \<open>next_count\<close> is what one pass does to the number of
  batches left.
\<close>

definition counted :: "'b task_iter \<Rightarrow> bool" where
  "counted it = (iters_left it = int (batches_left it) + 1)"

definition loaded :: "'b task_iter \<Rightarrow> bool" where
  "loaded it = (case data_loader it of None \<Rightarrow> False
                | Some dl \<Rightarrow> dl \<noteq> [] \<and> iters_left it = int (length dl))"

definition next_count :: "nat \<Rightarrow> nat \<Rightarrow> nat" where
  "next_count L c = (if c = 0 then L - 1 else c - 1)"

definition in_phase :: "nat \<Rightarrow> nat \<Rightarrow> 'b list \<Rightarrow> 'b task_iter \<Rightarrow> bool" where
  "in_phase bs n ds it =
     (counted it \<and> batches_left it = (next_count (length ds div bs) ^^ n) 0)"

text \<open>A concrete shuffle for the examples: it reverses the list.\<close>

definition rev_shuffle :: "nat \<Rightarrow> 'b list \<Rightarrow> 'b list \<times> nat" where
  "rev_shuffle g xs = (rev xs, Suc g)"

subsection \<open>Curation Engine: ranking and selection (lines 409-434)\<close>

text \<open>
  \<^verbatim>\<open>torch.sort(metric, descending=True)[1]\<close>: the positions of the pool ordered by
  decreasing metric, equal entries in their original order.
\<close>

fun insert_desc :: "'a::linorder list \<Rightarrow> nat \<Rightarrow> nat list \<Rightarrow> nat list" where
  "insert_desc m i [] = [i]"
| "insert_desc m i (j # js) = (if m ! i \<le> m ! j then j # insert_desc m i js else i # j # js)"

definition argsort_desc :: "'a::linorder list \<Rightarrow> nat list" where
  "argsort_desc m = foldl (\<lambda>acc i. insert_desc m i acc) [] [0 ..< length m]"

text \<open>\<^verbatim>\<open>t[idx]\<close> for a tensor of positions \<open>idx\<close>.\<close>

definition index_tensor :: "'b list \<Rightarrow> nat list \<Rightarrow> error + 'b list" where
  "index_tensor xs idx =
     (if list_all (\<lambda>i. i < length xs) idx then Inr (map ((!) xs) idx) else Inl IndexError)"

text \<open>\<^verbatim>\<open>torch.arange(batch_size_replay) % len(allowed_classes)\<close>, for a positive divisor.\<close>

definition uniform_dist :: "nat \<Rightarrow> nat \<Rightarrow> nat list" where
  "uniform_dist batch_size_replay n = map (\<lambda>j. j mod n) [0 ..< batch_size_replay]"

text \<open>\<^verbatim>\<open>torch.unique(t, return_counts=True)[1]\<close>: the counts of the distinct values, in increasing order of the values.\<close>

definition unique_counts :: "nat list \<Rightarrow> nat list" where
  "unique_counts xs = map (count_list xs) (sort (remdups xs))"

text \<open>
  The list comprehension of line 430; \<open>labels\<close> is \<^verbatim>\<open>y_used[indices]\<close>. Reading
  \<^verbatim>\<open>counts_each_class[i]\<close> beyond the end raises IndexError.
\<close>

fun balanced_indices :: "nat list \<Rightarrow> int list \<Rightarrow> nat list \<Rightarrow> nat list \<Rightarrow> error + nat list list" where
  "balanced_indices counts_each_class labels indices [] = Inr []"
| "balanced_indices counts_each_class labels indices (i # rest) =
     (if i < length counts_each_class then
        (case balanced_indices counts_each_class labels indices rest of
           Inl e \<Rightarrow> Inl e
         | Inr r \<Rightarrow>
             Inr (take (counts_each_class ! i)
                    (map fst (filter (\<lambda>(j, l). l = int i) (zip indices labels))) # r))
      else Inl IndexError)"

text \<open>Lines 409-415: the ranking, shuffled for \<^verbatim>\<open>uniform_large\<close> and \<^verbatim>\<open>random_large\<close>.\<close>

definition ranked_indices ::
  "string \<Rightarrow> ('g \<Rightarrow> nat list \<Rightarrow> nat list \<times> 'g) \<Rightarrow> 'g \<Rightarrow> 'a::linorder list \<Rightarrow> nat list \<times> 'g" where
  "ranked_indices sample_method shuffle g metric =
     (if sample_method = ''uniform_large'' \<or> sample_method = ''random_large''
      then shuffle g (argsort_desc metric)
      else (argsort_desc metric, g))"

text \<open>
  Lines 417-434. The result is the replay batch \<^verbatim>\<open>x_\<close> (here \<open>x_replay\<close>), the positions of the pool it was
  taken from, and the state of the random generator.
\<close>

definition select_replay ::
  "string \<Rightarrow> ('g \<Rightarrow> nat list \<Rightarrow> nat list \<times> 'g) \<Rightarrow> 'g \<Rightarrow> 'a::linorder list \<Rightarrow> int list
     \<Rightarrow> nat list option \<Rightarrow> int \<Rightarrow> 'x list \<Rightarrow> error + ('x list \<times> nat list \<times> 'g)" where
  "select_replay sample_method shuffle g metric y_used allowed_classes batch_size_replay x_replay =
     (case ranked_indices sample_method shuffle g metric of (indices, g') \<Rightarrow>
        if sample_method \<noteq> ''random_large'' \<and> sample_method \<noteq> ''curated_softmax'' then
          if batch_size_replay < 0 then Inl RuntimeError
          else
            (case allowed_classes of
               None \<Rightarrow> Inl TypeError
             | Some ac \<Rightarrow>
                 if length ac = 0 then Inl RuntimeError
                 else
                   let counts_each_class =
                         unique_counts (uniform_dist (nat batch_size_replay) (length ac))
                   in
                   (case index_tensor y_used indices of
                      Inl e \<Rightarrow> Inl e
                    | Inr labels \<Rightarrow>
                        (case balanced_indices counts_each_class labels indices [0 ..< length ac] of
                           Inl e \<Rightarrow> Inl e
                         | Inr per_class \<Rightarrow>
                             let indices_to_replay = concat per_class in
                             (case index_tensor x_replay indices_to_replay of
                                Inl e \<Rightarrow> Inl e
                              | Inr xs \<Rightarrow> Inr (xs, indices_to_replay, g')))))
        else
          (case index_tensor x_replay indices of
             Inl e \<Rightarrow> Inl e
           | Inr xs \<Rightarrow> Inr (xs, indices, g')))"

text \<open>
  Measures for the claims about balance: the number of selected positions whose
  generator label is \<open>c\<close>, the balanced share of class \<open>i\<close> out of \<open>n\<close> classes, and
  "within one of \<open>replay_size / n\<close>" without fractions.
\<close>

definition class_count :: "int list \<Rightarrow> nat list \<Rightarrow> nat \<Rightarrow> nat" where
  "class_count y_used idx c = length (filter (\<lambda>j. y_used ! j = int c) idx)"

definition quota :: "nat \<Rightarrow> nat \<Rightarrow> nat \<Rightarrow> nat" where
  "quota r n i = r div n + (if i < r mod n then 1 else 0)"

definition within_one_of_share :: "nat \<Rightarrow> int \<Rightarrow> nat \<Rightarrow> bool" where
  "within_one_of_share k batch_size_replay n =
     (\<bar>int n * int k - batch_size_replay\<bar> \<le> int n)"

subsection \<open>Target Labeler (lines 438-477)\<close>

text \<open>
  A replay variable of the loop (\<^verbatim>\<open>x_\<close>, \<^verbatim>\<open>y_\<close>, \<^verbatim>\<open>scores_\<close>) is \<^verbatim>\<open>None\<close>, one tensor, or a
  list with one tensor per previous task.
\<close>

datatype 't replay = RNone | RTensor 't | RList "'t list"

text \<open>
  \<^verbatim>\<open>torch.max(t, dim=1)[1]\<close>: per row the position of the first maximal entry; a zero
  width raises.
\<close>

definition argmax :: "'a::linorder list \<Rightarrow> nat" where
  "argmax xs = length (takeWhile (\<lambda>v. v \<noteq> Max (set xs)) xs)"

definition max_dim1 :: "'a::linorder tensor2 \<Rightarrow> error + nat list" where
  "max_dim1 t = (if size1 t = 0 then Inl IndexError else Inr (map argmax (rows t)))"

text \<open>\<^verbatim>\<open>t[:, a:b]\<close> for non-negative bounds.\<close>

definition slice_cols_from :: "nat \<Rightarrow> nat \<Rightarrow> 'a tensor2 \<Rightarrow> 'a tensor2" where
  "slice_cols_from a b t =
     \<lparr>size1 = min b (size1 t) - a, rows = map (\<lambda>r. drop a (take b r)) (rows t)\<rparr>"

text \<open>
  The previous model is a collaborator: \<open>classify\<close> is its forward pass (taken as free of
  side effects), \<open>apply_XdGmask\<close> changes the snapshot in place, \<open>mask_dict_None\<close> tells
  whether it carries task-specific masks. \<open>x_replay\<close> is \<^verbatim>\<open>x_\<close>, \<open>generative\<close> the flag
  \<^verbatim>\<open>Generative\<close>. The loop of lines 457-474 from \<open>task_id\<close> on; \<open>all_scores\<close> is
  \<^verbatim>\<open>all_scores_\<close> when it is bound.
\<close>

function per_task_targets ::
  "('m \<Rightarrow> 'x list \<Rightarrow> bool \<Rightarrow> 'a::linorder tensor2) \<Rightarrow> ('m \<Rightarrow> nat \<Rightarrow> 'm) \<Rightarrow> ('m \<Rightarrow> bool)
     \<Rightarrow> string \<Rightarrow> nat \<Rightarrow> nat \<Rightarrow> bool \<Rightarrow> 'x list replay \<Rightarrow> nat \<Rightarrow> 'm \<Rightarrow> 'a tensor2 option
     \<Rightarrow> error + ('a tensor2 list \<times> nat list list \<times> 'm)" where
  "per_task_targets classify apply_XdGmask mask_dict_None scenario classes_per_task task
       generative x_replay task_id previous_model all_scores =
     (if task - 1 \<le> task_id then Inr ([], [], previous_model)
      else
        let pm = (if \<not> mask_dict_None previous_model
                  then apply_XdGmask previous_model (task_id + 1) else previous_model);
            is_list = (case x_replay of RList _ \<Rightarrow> True | _ \<Rightarrow> False);
            scored =
              (if \<not> mask_dict_None pm \<or> is_list then
                 (case x_replay of
                    RList xs \<Rightarrow>
                      if task_id < length xs
                      then Inr (Some (classify pm (xs ! task_id) (\<not> generative)))
                      else Inl IndexError
                  | RTensor x \<Rightarrow> Inr (Some (classify pm x (\<not> generative)))
                  | RNone \<Rightarrow> Inl TypeError)
               else Inr all_scores)
        in
        (case scored of
           Inl e \<Rightarrow> Inl e
         | Inr None \<Rightarrow> Inl NameError
         | Inr (Some all_scores') \<Rightarrow>
             let temp_scores =
                   (if scenario = ''domain'' then all_scores'
                    else slice_cols_from (classes_per_task * task_id)
                           (classes_per_task * (task_id + 1)) all_scores')
             in
             (case max_dim1 temp_scores of
                Inl e \<Rightarrow> Inl e
              | Inr temp_y \<Rightarrow>
                  (case per_task_targets classify apply_XdGmask mask_dict_None scenario
                          classes_per_task task generative x_replay (task_id + 1) pm
                          (Some all_scores') of
                     Inl e \<Rightarrow> Inl e
                   | Inr (scores, ys, pm') \<Rightarrow> Inr (temp_scores # scores, temp_y # ys, pm')))))"
  by pat_completeness auto
termination
  by (relation "measure (\<lambda>(c, a, m, s, cpt, task, g, x, task_id, pm, al). task - 1 - task_id)") auto

declare per_task_targets.simps [simp del]

text \<open>
  Lines 438-474: the result is \<^verbatim>\<open>(scores_, y_)\<close> and the previous model after the masks
  were applied.
\<close>

definition target_scores ::
  "('m \<Rightarrow> 'x list \<Rightarrow> bool \<Rightarrow> 'a::linorder tensor2) \<Rightarrow> ('m \<Rightarrow> nat \<Rightarrow> 'm) \<Rightarrow> ('m \<Rightarrow> bool)
     \<Rightarrow> string \<Rightarrow> nat \<Rightarrow> nat \<Rightarrow> bool \<Rightarrow> 'x list replay \<Rightarrow> 'm
     \<Rightarrow> error + ('a tensor2 replay \<times> nat list replay \<times> 'm)" where
  "target_scores classify apply_XdGmask mask_dict_None scenario classes_per_task task
       generative x_replay previous_model =
     (if (scenario = ''domain'' \<or> scenario = ''class'') \<and> mask_dict_None previous_model then
        (case x_replay of
           RTensor x \<Rightarrow>
             let all_scores = classify previous_model x (\<not> generative);
                 scores = (if scenario = ''class''
                           then slice_cols (classes_per_task * (task - 1)) all_scores
                           else all_scores)
             in
             (case max_dim1 scores of
                Inl e \<Rightarrow> Inl e
              | Inr y \<Rightarrow> Inr (RTensor scores, RTensor y, previous_model))
         | _ \<Rightarrow> Inl TypeError)
      else
        (case (if mask_dict_None previous_model
                  \<and> (case x_replay of RList _ \<Rightarrow> False | _ \<Rightarrow> True)
               then (case x_replay of
                       RTensor x \<Rightarrow> Inr (Some (classify previous_model x (\<not> generative)))
                     | _ \<Rightarrow> Inl TypeError)
               else Inr None) of
           Inl e \<Rightarrow> Inl e
         | Inr all_scores \<Rightarrow>
             (case per_task_targets classify apply_XdGmask mask_dict_None scenario
                     classes_per_task task generative x_replay 0 previous_model all_scores of
                Inl e \<Rightarrow> Inl e
              | Inr (scores, ys, pm') \<Rightarrow> Inr (RList scores, RList ys, pm'))))"

text \<open>Lines 476-477: only the targets that the model's \<^verbatim>\<open>replay_targets\<close> asks for are kept.\<close>

definition keep_targets ::
  "string \<Rightarrow> 's replay \<Rightarrow> 'y replay \<Rightarrow> 's replay \<times> 'y replay" where
  "keep_targets replay_targets scores y =
     (let y' = (if replay_targets = ''hard'' then y else RNone);
          scores' = (if replay_targets = ''soft'' then scores else RNone)
      in (scores', y'))"

text \<open>A forward pass for the examples: four output units, the last one is the model's state.\<close>

definition classify_ex :: "int \<Rightarrow> int list \<Rightarrow> bool \<Rightarrow> int tensor2" where
  "classify_ex m x not_hidden = \<lparr>size1 = 4, rows = map (\<lambda>v. [v, 2 * v, 7, m]) x\<rparr>"

subsection \<open>Regularization Tracker: synaptic intelligence (lines 126-133, 499-521)\<close>

text \<open>
  A parameter of a model as the loop reads it: \<^verbatim>\<open>p.requires_grad\<close>, \<^verbatim>\<open>p.data\<close> (flattened)
  and \<^verbatim>\<open>p.grad\<close>, which is \<^verbatim>\<open>None\<close> when no gradient has reached the parameter.
  \<^verbatim>\<open>model.named_parameters()\<close> is a list of pairs of a dotted name and a parameter.
\<close>

record 'a param =
  requires_grad :: bool
  data :: "'a list"
  grad :: "'a list option"

text \<open>\<^verbatim>\<open>n.replace('.', '__')\<close>.\<close>

definition mangle :: "string \<Rightarrow> string" where
  "mangle n = concat (map (\<lambda>c. if c = CHR ''.'' then ''__'' else [c]) n)"

text \<open>
  \<^verbatim>\<open>model.<sub>.named_parameters()\<close>: the parameters whose name starts with the name of
  the submodule and a dot, with that prefix removed.
\<close>

definition in_submodule :: "string \<Rightarrow> string \<Rightarrow> bool" where
  "in_submodule sub n = (take (length sub + 1) n = sub @ ''.'')"

definition sub_named_parameters :: "string \<Rightarrow> (string \<times> 'a param) list \<Rightarrow> (string \<times> 'a param) list" where
  "sub_named_parameters sub params =
     map (\<lambda>(n, p). (drop (length sub + 1) n, p))
       (filter (\<lambda>(n, p). in_submodule sub n) params)"

text \<open>
  Lines 127-133: the dictionaries \<^verbatim>\<open>W\<close> and \<^verbatim>\<open>p_old\<close> are made anew from the parameters
  of the model.
\<close>

definition si_init ::
  "(string \<times> 'a::zero param) list \<Rightarrow> (string \<rightharpoonup> 'a list) \<times> (string \<rightharpoonup> 'a list)" where
  "si_init params =
     foldl (\<lambda>(W, p_old) (n, p).
              if requires_grad p
              then (W(mangle n \<mapsto> map (\<lambda>_. 0) (data p)), p_old(mangle n \<mapsto> data p))
              else (W, p_old))
       (Map.empty, Map.empty) params"

text \<open>
  \<^verbatim>\<open>W[n].add_(-p.grad * (p.detach() - p_old[n]))\<close> on tensors of one shape; another shape
  raises (broadcasting is left out: a parameter, its gradient and its earlier value
  have the same shape).
\<close>

definition si_increment ::
  "'a::ring list \<Rightarrow> 'a list \<Rightarrow> 'a list \<Rightarrow> 'a list \<Rightarrow> error + 'a list" where
  "si_increment w g p po =
     (if length g = length p \<and> length po = length p \<and> length w = length p
      then Inr (map (\<lambda>i. w ! i + (- (g ! i)) * (p ! i - po ! i)) [0 ..< length p])
      else Inl RuntimeError)"

text \<open>The body of one of the three loops of lines 501-521, for the parameter with key \<open>n\<close>.\<close>

definition si_step ::
  "string \<Rightarrow> 'a::ring param \<Rightarrow> (string \<rightharpoonup> 'a list) \<times> (string \<rightharpoonup> 'a list)
     \<Rightarrow> error + ((string \<rightharpoonup> 'a list) \<times> (string \<rightharpoonup> 'a list))" where
  "si_step n p s =
     (case s of (W, p_old) \<Rightarrow>
        if requires_grad p then
          (case grad p of
             Some g \<Rightarrow>
               (case W n of
                  None \<Rightarrow> Inl KeyError
                | Some w \<Rightarrow>
                    (case p_old n of
                       None \<Rightarrow> Inl KeyError
                     | Some po \<Rightarrow>
                         (case si_increment w g (data p) po of
                            Inl e \<Rightarrow> Inl e
                          | Inr w' \<Rightarrow> Inr (W(n \<mapsto> w'), p_old(n \<mapsto> data p)))))
           | None \<Rightarrow> Inr (W, p_old(n \<mapsto> data p)))
        else Inr (W, p_old))"

fun si_update_sub ::
  "string \<Rightarrow> (string \<times> 'a::ring param) list \<Rightarrow> (string \<rightharpoonup> 'a list) \<times> (string \<rightharpoonup> 'a list)
     \<Rightarrow> error + ((string \<rightharpoonup> 'a list) \<times> (string \<rightharpoonup> 'a list))" where
  "si_update_sub sub [] s = Inr s"
| "si_update_sub sub ((n, p) # rest) s =
     (case si_step (mangle (sub @ ''.'' @ n)) p s of
        Inl e \<Rightarrow> Inl e
      | Inr s' \<Rightarrow> si_update_sub sub rest s')"

text \<open>Lines 501-521: the loops over \<^verbatim>\<open>convE\<close>, \<^verbatim>\<open>fcE\<close> and \<^verbatim>\<open>classifier\<close>, in this order.\<close>

definition si_update ::
  "(string \<times> 'a::ring param) list \<Rightarrow> (string \<rightharpoonup> 'a list) \<times> (string \<rightharpoonup> 'a list)
     \<Rightarrow> error + ((string \<rightharpoonup> 'a list) \<times> (string \<rightharpoonup> 'a list))" where
  "si_update params s =
     (case si_update_sub ''convE'' (sub_named_parameters ''convE'' params) s of
        Inl e \<Rightarrow> Inl e
      | Inr s1 \<Rightarrow>
          (case si_update_sub ''fcE'' (sub_named_parameters ''fcE'' params) s1 of
             Inl e \<Rightarrow> Inl e
           | Inr s2 \<Rightarrow>
               si_update_sub ''classifier'' (sub_named_parameters ''classifier'' params) s2))"

text \<open>
  The parameters that the three loops visit, with their keys; \<open>in_tracked_submodule\<close>
  tells whether a dotted name belongs to one of the three submodules.
\<close>

definition tracked :: "(string \<times> 'a param) list \<Rightarrow> (string \<times> 'a param) list" where
  "tracked params =
     concat (map (\<lambda>sub. map (\<lambda>(n, p). (mangle (sub @ ''.'' @ n), p))
                          (sub_named_parameters sub params))
               [''convE'', ''fcE'', ''classifier''])"

definition in_tracked_submodule :: "string \<Rightarrow> bool" where
  "in_tracked_submodule n =
     (in_submodule ''convE'' n \<or> in_submodule ''fcE'' n \<or> in_submodule ''classifier'' n)"

text \<open>An encoder weight, a decoder weight and a classifier bias, before and after a training step.\<close>

definition params_before :: "(string \<times> int param) list" where
  "params_before =
     [(''fcE.weight'', \<lparr>requires_grad = True, data = [1, 2], grad = None\<rparr>),
      (''fcD.weight'', \<lparr>requires_grad = True, data = [1], grad = None\<rparr>),
      (''classifier.bias'', \<lparr>requires_grad = True, data = [5], grad = None\<rparr>)]"

definition params_after :: "(string \<times> int param) list" where
  "params_after =
     [(''fcE.weight'', \<lparr>requires_grad = True, data = [3, 2], grad = Some [1, 1]\<rparr>),
      (''fcD.weight'', \<lparr>requires_grad = True, data = [2], grad = Some [1]\<rparr>),
      (''classifier.bias'', \<lparr>requires_grad = True, data = [5], grad = None\<rparr>)]"

text \<open>The three loops as one pass over a list of keys and parameters (for the proofs).\<close>

fun si_steps ::
  "(string \<times> 'a::ring param) list \<Rightarrow> (string \<rightharpoonup> 'a list) \<times> (string \<rightharpoonup> 'a list)
     \<Rightarrow> error + ((string \<rightharpoonup> 'a list) \<times> (string \<rightharpoonup> 'a list))" where
  "si_steps [] s = Inr s"
| "si_steps ((k, p) # rest) s =
     (case si_step k p s of Inl e \<Rightarrow> Inl e | Inr s' \<Rightarrow> si_steps rest s')"

definition si_inc :: "'a::ring list \<Rightarrow> 'a list \<Rightarrow> 'a list \<Rightarrow> 'a list \<Rightarrow> 'a list" where
  "si_inc w g p po = map (\<lambda>i. w ! i + (- (g ! i)) * (p ! i - po ! i)) [0 ..< length p]"

definition si_ready ::
  "(string \<rightharpoonup> 'a list) \<Rightarrow> (string \<rightharpoonup> 'a list) \<Rightarrow> string \<Rightarrow> 'a param \<Rightarrow> bool" where
  "si_ready W p_old k p =
     (requires_grad p \<longrightarrow>
        (case grad p of
           None \<Rightarrow> True
         | Some g \<Rightarrow>
             (case W k of
                None \<Rightarrow> False
              | Some w \<Rightarrow>
                  (case p_old k of
                     None \<Rightarrow> False
                   | Some po \<Rightarrow> length g = length (data p) \<and> length po = length (data p)
                                \<and> length w = length (data p)))))"

definition si_W_after :: "(string \<rightharpoonup> 'a::ring list) \<Rightarrow> (string \<rightharpoonup> 'a list) \<Rightarrow> string \<Rightarrow> 'a param
    \<Rightarrow> 'a list option" where
  "si_W_after W p_old k p =
     (case grad p of
        None \<Rightarrow> W k
      | Some g \<Rightarrow> Some (si_inc (the (W k)) g (data p) (the (p_old k))))"

definition tracked_src :: "(string \<times> 'a param) list \<Rightarrow> (string \<times> 'a param) list" where
  "tracked_src params =
     concat (map (\<lambda>sub. filter (\<lambda>(n, p). in_submodule sub n) params)
               [''convE'', ''fcE'', ''classifier''])"

text \<open>The entries of one key in the result of an update.\<close>

definition si_lookup ::
  "error + ((string \<rightharpoonup> 'a list) \<times> (string \<rightharpoonup> 'a list)) \<Rightarrow> string
     \<Rightarrow> error + ('a list option \<times> 'a list option)" where
  "si_lookup r k = (case r of Inl e \<Rightarrow> Inl e | Inr (W, p_old) \<Rightarrow> Inr (W k, p_old k))"

section \<open>Properties\<close>

subsection \<open>Requests to a conditional generator\<close>

lemma ceil_div_bounds:
  assumes "0 < b"
  shows "a \<le> b * ceil_div a b" and "b * ceil_div a b < a + b"
proof -
  have "(- a) = b * ((- a) div b) + (- a) mod b" by simp
  moreover have "0 \<le> (- a) mod b" "(- a) mod b < b" using assms by simp_all
  ultimately have "b * ((- a) div b) \<le> - a" "- a - b < b * ((- a) div b)" by linarith+
  then show "a \<le> b * ceil_div a b" and "b * ceil_div a b < a + b"
    by (simp_all add: ceil_div_def)
qed

lemma ceil_div_exact: "0 < b \<Longrightarrow> b * ceil_div a b = a \<longleftrightarrow> b dvd a"
proof
  assume "b * ceil_div a b = a"
  then show "b dvd a" by (metis dvd_triv_left)
next
  assume "0 < b" "b dvd a"
  then show "b * ceil_div a b = a" by (auto simp: ceil_div_def)
qed

lemma total_requested_eq:
  "total_requested (conditional_requests brs cpt task) =
     int (task - 1) * batch_size_replay_to_use brs task"
  by (simp add: total_requested_def conditional_requests_def comp_def sum_list_triv)

text \<open>
  Claim C4, as the code has it. With a conditional generator in the task-incremental
  scenario, task \<open>t > 1\<close> issues \<open>t - 1\<close> requests, one per previous task, each of size
  \<open>ceil(batch_size_replay / (t - 1))\<close> and each restricted to that task's classes. No
  request is reduced: the total requested is \<open>(t - 1) * ceil(batch_size_replay / (t - 1))\<close>,
  which is at least \<open>batch_size_replay\<close>, less than \<open>batch_size_replay + (t - 1)\<close>, and equal
  to \<open>batch_size_replay\<close> exactly when \<open>t - 1\<close> divides it.
\<close>

theorem C4_conditional_requests:
  assumes "1 < task"
  shows "length (conditional_requests brs cpt task) = task - 1
    \<and> (\<forall>i < task - 1. conditional_requests brs cpt task ! i =
           (ceil_div brs (int task - 1), [cpt * i ..< cpt * (i + 1)]))
    \<and> total_requested (conditional_requests brs cpt task) =
           (int task - 1) * ceil_div brs (int task - 1)
    \<and> brs \<le> total_requested (conditional_requests brs cpt task)
    \<and> total_requested (conditional_requests brs cpt task) < brs + (int task - 1)
    \<and> (total_requested (conditional_requests brs cpt task) = brs
           \<longleftrightarrow> (int task - 1) dvd brs)"
proof -
  have pos: "0 < int task - 1" using assms by simp
  have t: "int (task - 1) = int task - 1" using assms by (simp add: of_nat_diff)
  have len: "length (conditional_requests brs cpt task) = task - 1"
    by (simp add: conditional_requests_def)
  have nth: "\<forall>i < task - 1. conditional_requests brs cpt task ! i =
           (ceil_div brs (int task - 1), [cpt * i ..< cpt * (i + 1)])"
    by (simp add: conditional_requests_def batch_size_replay_to_use_def)
  have tot: "total_requested (conditional_requests brs cpt task) =
           (int task - 1) * ceil_div brs (int task - 1)"
    unfolding total_requested_eq batch_size_replay_to_use_def t ..
  have lo: "brs \<le> total_requested (conditional_requests brs cpt task)"
    using ceil_div_bounds(1)[OF pos] by (simp add: tot)
  have hi: "total_requested (conditional_requests brs cpt task) < brs + (int task - 1)"
    using ceil_div_bounds(2)[OF pos] by (simp add: tot)
  have ex: "total_requested (conditional_requests brs cpt task) = brs
           \<longleftrightarrow> (int task - 1) dvd brs"
    using ceil_div_exact[OF pos] by (simp add: tot)
  from len nth tot lo hi ex show ?thesis by blast
qed

theorem C4_conditional_requests_witness:
  "(1::nat) < 4 \<and> length (conditional_requests 32 2 4) = 3
     \<and> conditional_requests 32 2 4 ! 0 = (11, [0, 1])
     \<and> total_requested (conditional_requests 32 2 4) = 33
     \<and> \<not> (3::int) dvd 32"
proof -
  have h: "(1::nat) < 4" by simp
  have c: "ceil_div 32 (int 4 - 1) = 11" by (simp add: ceil_div_def)
  show ?thesis using C4_conditional_requests[OF h, of 32 2] by (simp add: c)
qed

text \<open>
  With a replay batch of 32 and task 4 the three requests are of size 11 each: 33
  samples are requested, not 32.
\<close>

theorem C4_total_counterexample:
  "total_requested (conditional_requests 32 2 4) \<noteq> 32"
  by (simp add: total_requested_eq batch_size_replay_to_use_def ceil_div_def)

subsection \<open>Zero padding of the previous scores\<close>

lemma broadcast_rows_same:
  "list_all (\<lambda>r. length r = w) rs \<Longrightarrow> broadcast_rows w rs = Inr rs"
  by (induction rs) (simp_all add: broadcast_to_def)

lemma padded_scores_Inr:
  assumes "wf_tensor2 so" "wf_tensor2 sn" "size0 so = size0 sn" "size1 so \<le> size1 sn"
  shows "padded_scores so sn =
     Inr \<lparr>size1 = size1 sn,
          rows = map2 (\<lambda>s d. s @ replicate (length d - size1 so) 0) (rows so) (rows sn)\<rparr>"
proof -
  have w: "min (size1 so) (size1 sn) = size1 so" using assms(4) by simp
  have b: "broadcast_rows (size1 so) (rows so) = Inr (rows so)"
    using assms(1) by (simp add: broadcast_rows_same wf_tensor2_def)
  have l: "length (rows so) = length (rows sn)" using assms(3) by (simp add: size0_def)
  have m: "map2 (\<lambda>s d. s @ drop (size1 so) d) (rows so)
             (map (\<lambda>r. replicate (length r) 0) (rows sn))
         = map2 (\<lambda>s d. s @ replicate (length d - size1 so) 0) (rows so) (rows sn)"
    by (simp add: zip_map2 map_zip_map2 comp_def case_prod_unfold)
  show ?thesis
    by (simp add: padded_scores_def assign_cols_def zeros_like_def w b l m broadcast_to_def
        size0_def Let_def)
qed

text \<open>
  Claim C6. For the \<^verbatim>\<open>interfered\<close> method, with score tensors over the same pool
  (equal number of rows) of widths \<open>w_old \<le> w_new\<close>, the padding succeeds and the padded
  tensor has the shape of \<^verbatim>\<open>scores_new\<close>, equals \<^verbatim>\<open>scores_old\<close> in the columns below
  \<open>w_old\<close> and is zero in the columns from \<open>w_old\<close> up to \<open>w_new - 1\<close>.
\<close>

theorem C6_padded_scores:
  assumes "wf_tensor2 scores_old" "wf_tensor2 scores_new"
    and "size0 scores_old = size0 scores_new"
    and "size1 scores_old \<le> size1 scores_new"
  shows "\<exists>p. padded_scores scores_old scores_new = Inr p
     \<and> size0 p = size0 scores_new \<and> size1 p = size1 scores_new \<and> wf_tensor2 p
     \<and> (\<forall>i < size0 scores_new. \<forall>j < size1 scores_new.
           rows p ! i ! j = (if j < size1 scores_old then rows scores_old ! i ! j else 0))"
proof -
  let ?p = "\<lparr>size1 = size1 scores_new,
          rows = map2 (\<lambda>s d. s @ replicate (length d - size1 scores_old) 0)
                   (rows scores_old) (rows scores_new)\<rparr>"
  have l: "length (rows scores_old) = length (rows scores_new)"
    using assms(3) by (simp add: size0_def)
  have lo: "\<And>i. i < length (rows scores_new) \<Longrightarrow> length (rows scores_old ! i) = size1 scores_old"
    using assms(1) l by (simp add: wf_tensor2_def list_all_length)
  have ln: "\<And>i. i < length (rows scores_new) \<Longrightarrow> length (rows scores_new ! i) = size1 scores_new"
    using assms(2) by (simp add: wf_tensor2_def list_all_length)
  have 1: "padded_scores scores_old scores_new = Inr ?p" by (rule padded_scores_Inr[OF assms])
  have 2: "size0 ?p = size0 scores_new" by (simp add: size0_def l)
  have 3: "wf_tensor2 ?p"
    using assms(4) by (simp add: wf_tensor2_def list_all_length l lo ln)
  have 4: "\<forall>i < size0 scores_new. \<forall>j < size1 scores_new.
           rows ?p ! i ! j = (if j < size1 scores_old then rows scores_old ! i ! j else 0)"
    by (simp add: size0_def l lo ln nth_append)
  show ?thesis using 1 2 3 4 by (intro exI[of _ ?p]) simp
qed

theorem C6_padded_scores_witness:
  "wf_tensor2 scores_old_ex \<and> wf_tensor2 scores_new_ex
     \<and> size0 scores_old_ex = size0 scores_new_ex \<and> size1 scores_old_ex \<le> size1 scores_new_ex
     \<and> padded_scores scores_old_ex scores_new_ex =
          Inr \<lparr>size1 = 6, rows = [[1, 2, 3, 4, 0, 0], [5, 6, 7, 8, 0, 0]]\<rparr>
     \<and> (\<exists>p. padded_scores scores_old_ex scores_new_ex = Inr p
          \<and> size0 p = 2 \<and> size1 p = 6 \<and> wf_tensor2 p
          \<and> (\<forall>i < 2. \<forall>j < 6.
                rows p ! i ! j = (if j < 4 then rows scores_old_ex ! i ! j else 0)))"
proof -
  have h1: "wf_tensor2 scores_old_ex" by (simp add: wf_tensor2_def scores_old_ex_def)
  have h2: "wf_tensor2 scores_new_ex" by (simp add: wf_tensor2_def scores_new_ex_def)
  have h3: "size0 scores_old_ex = size0 scores_new_ex"
    by (simp add: size0_def scores_old_ex_def scores_new_ex_def)
  have h4: "size1 scores_old_ex \<le> size1 scores_new_ex"
    by (simp add: scores_old_ex_def scores_new_ex_def)
  have v: "padded_scores scores_old_ex scores_new_ex =
          Inr \<lparr>size1 = 6, rows = [[1, 2, 3, 4, 0, 0], [5, 6, 7, 8, 0, 0]]\<rparr>"
    by (simp add: padded_scores_def assign_cols_def zeros_like_def broadcast_to_def size0_def
        scores_old_ex_def scores_new_ex_def)
  have s: "size0 scores_new_ex = 2" "size1 scores_new_ex = 6" "size1 scores_old_ex = 4"
    by (simp_all add: size0_def scores_old_ex_def scores_new_ex_def)
  show ?thesis
    using C6_padded_scores[OF h1 h2 h3 h4] h1 h2 h3 h4 v unfolding s by simp
qed

subsection \<open>Task Iterator Manager\<close>

lemma length_batches_drop_last: "length (batches_drop_last bs xs) = length xs div bs"
proof (induction bs xs rule: batches_drop_last.induct)
  case (1 bs xs)
  show ?case
  proof (cases "bs = 0 \<or> length xs < bs")
    case True
    then show ?thesis by (auto simp: batches_drop_last.simps[of bs xs])
  next
    case False
    then have "length (batches_drop_last bs xs) = Suc ((length xs - bs) div bs)"
      using 1 by (simp add: batches_drop_last.simps[of bs xs])
    also have "\<dots> = length xs div bs" using False by (simp add: le_div_geq)
    finally show ?thesis .
  qed
qed

lemma get_data_loader_length:
  assumes "\<forall>g xs. length (fst (shuffle g xs)) = length xs" "0 < bs"
  shows "\<exists>dl g'. get_data_loader shuffle ds bs g = Inr (dl, g') \<and> length dl = length ds div bs"
proof -
  obtain xs g' where s: "shuffle g ds = (xs, g')" by (cases "shuffle g ds")
  then have "length xs = length ds" using assms(1) by (metis fst_conv)
  then show ?thesis using assms(2) s
    by (simp add: get_data_loader_def length_batches_drop_last)
qed

lemma update_iter_step:
  assumes "\<forall>g xs. length (fst (shuffle g xs)) = length xs" "0 < bs" "0 < length ds div bs"
    and "counted it"
  shows "\<exists>it' g'. update_iter shuffle ds bs it g = Inr (it', g') \<and> loaded it'
           \<and> batches_left it' = Suc (next_count (length ds div bs) (batches_left it))"
proof (cases "batches_left it = 0")
  case True
  obtain dl g' where d: "get_data_loader shuffle ds bs g = Inr (dl, g')"
      "length dl = length ds div bs"
    using get_data_loader_length[OF assms(1,2)] by blast
  have "iters_left it - 1 = 0" using assms(4) True by (simp add: counted_def)
  then have "update_iter shuffle ds bs it g
      = Inr (\<lparr>data_loader = Some dl, iters_left = int (length dl)\<rparr>, g')"
    by (simp add: update_iter_def d)
  then show ?thesis using d(2) assms(3) True
    by (auto simp: loaded_def batches_left_def next_count_def)
next
  case False
  then obtain dl where dl: "data_loader it = Some dl" "dl \<noteq> []"
    by (auto simp: batches_left_def split: option.splits)
  have l: "iters_left it - 1 = int (length dl)" using assms(4) dl
    by (simp add: counted_def batches_left_def)
  then have "update_iter shuffle ds bs it g = Inr (it\<lparr>iters_left := int (length dl)\<rparr>, g)"
    using dl by (simp add: update_iter_def Let_def)
  then show ?thesis using dl False
    by (auto simp: loaded_def batches_left_def next_count_def)
qed

lemma next_batch_step:
  assumes "loaded it"
  shows "\<exists>b it'. next_batch it = Inr (b, it') \<and> counted it'
           \<and> Suc (batches_left it') = batches_left it"
proof -
  from assms obtain b rest where "data_loader it = Some (b # rest)"
      "iters_left it = int (length (b # rest))"
    by (cases "data_loader it"; cases "the (data_loader it)") (auto simp: loaded_def)
  then show ?thesis by (simp add: next_batch_def counted_def batches_left_def)
qed

lemma fetch_single_step:
  assumes "\<forall>g xs. length (fst (shuffle g xs)) = length xs" "0 < bs" "0 < length ds div bs"
    and "counted it"
  shows "\<exists>b it' g'. fetch_single shuffle ds bs it g = Inr (b, it', g') \<and> counted it'
           \<and> batches_left it' = next_count (length ds div bs) (batches_left it)"
proof -
  obtain it1 g1 where u: "update_iter shuffle ds bs it g = Inr (it1, g1)" "loaded it1"
     "batches_left it1 = Suc (next_count (length ds div bs) (batches_left it))"
    using update_iter_step[OF assms] by blast
  obtain b it2 where n: "next_batch it1 = Inr (b, it2)" "counted it2"
     "Suc (batches_left it2) = batches_left it1"
    using next_batch_step[OF u(2)] by blast
  show ?thesis using u n by (simp add: fetch_single_def)
qed

lemma next_count_iterate:
  assumes "0 < L" "0 < n" "c = L - 1 - (n - 1) mod L"
  shows "next_count L c = L - 1 - n mod L"
proof -
  obtain m where m: "n = Suc m" using assms(2) by (cases n) auto
  have lt: "m mod L < L" using assms(1) by simp
  show ?thesis
  proof (cases "Suc (m mod L) = L")
    case True
    then have "Suc m mod L = 0" by (simp add: mod_Suc)
    moreover have "c = 0" using True assms(3) m by simp
    ultimately show ?thesis using m by (simp add: next_count_def)
  next
    case False
    then have "Suc m mod L = Suc (m mod L)" by (simp add: mod_Suc)
    moreover have "c = L - 1 - m mod L" "c \<noteq> 0" using False lt assms(3) m by auto
    ultimately show ?thesis using m by (simp add: next_count_def)
  qed
qed

lemma next_count_funpow:
  assumes "0 < L"
  shows "(next_count L ^^ Suc n) 0 = L - 1 - n mod L"
proof (induction n)
  case 0
  show ?case by (simp add: next_count_def)
next
  case (Suc n)
  have c: "(next_count L ^^ Suc n) 0 = L - 1 - (Suc n - 1) mod L"
    using Suc by simp
  have "(next_count L ^^ Suc (Suc n)) 0 = next_count L ((next_count L ^^ Suc n) 0)" by simp
  also have "\<dots> = L - 1 - Suc n mod L"
    using next_count_iterate[OF assms _ c] by blast
  finally show ?case .
qed

lemma fetch_single_n_run:
  assumes "\<forall>g xs. length (fst (shuffle g xs)) = length xs" "0 < bs" "0 < length ds div bs"
    and "counted it"
  shows "\<exists>it' g'. fetch_single_n shuffle ds bs n it g = Inr (it', g') \<and> counted it'
           \<and> batches_left it' = (next_count (length ds div bs) ^^ n) (batches_left it)"
  using assms(4)
proof (induction n arbitrary: it g)
  case 0
  then show ?case by simp
next
  case (Suc n)
  obtain b it1 g1 where f: "fetch_single shuffle ds bs it g = Inr (b, it1, g1)" "counted it1"
      "batches_left it1 = next_count (length ds div bs) (batches_left it)"
    using fetch_single_step[OF assms(1-3) Suc.prems] by blast
  from Suc.IH[OF f(2), of g1] f show ?case by (simp add: funpow_swap1)
qed

lemma counted_new: "counted new_task_iter" "batches_left new_task_iter = 0"
  by (simp_all add: counted_def new_task_iter_def batches_left_def)

lemma update_iters_step:
  assumes "\<forall>g xs. length (fst (shuffle g xs)) = length xs" "0 < bs"
    and "length dss = length its"
    and "list_all (\<lambda>ds. 0 < length ds div bs) dss" "list_all counted its"
  shows "\<exists>its' g'. update_iters shuffle bs (zip dss its) g = Inr (its', g')
           \<and> list_all loaded its'
           \<and> list_all2 (\<lambda>(ds, it) it'. batches_left it' =
                  Suc (next_count (length ds div bs) (batches_left it))) (zip dss its) its'"
  using assms(3-5)
proof (induction dss its arbitrary: g rule: list_induct2)
  case Nil
  then show ?case by simp
next
  case (Cons ds dss it its)
  obtain it1 g1 where u: "update_iter shuffle ds bs it g = Inr (it1, g1)" "loaded it1"
     "batches_left it1 = Suc (next_count (length ds div bs) (batches_left it))"
    using update_iter_step[OF assms(1,2), of ds it g] Cons.prems by auto
  obtain its1 g2 where r: "update_iters shuffle bs (zip dss its) g1 = Inr (its1, g2)"
     "list_all loaded its1"
     "list_all2 (\<lambda>(ds, it) it'. batches_left it' =
                  Suc (next_count (length ds div bs) (batches_left it))) (zip dss its) its1"
    using Cons.IH[of g1] Cons.prems by auto
  show ?case using u r by simp
qed

lemma next_batches_step:
  assumes "list_all loaded its"
  shows "\<exists>bs its'. next_batches its = Inr (bs, its') \<and> list_all counted its'
           \<and> list_all2 (\<lambda>it it'. Suc (batches_left it') = batches_left it) its its'"
  using assms
proof (induction its)
  case Nil
  then show ?case by simp
next
  case (Cons it its)
  obtain b it1 where n: "next_batch it = Inr (b, it1)" "counted it1"
      "Suc (batches_left it1) = batches_left it"
    using next_batch_step[of it] Cons.prems by auto
  obtain bs its1 where r: "next_batches its = Inr (bs, its1)" "list_all counted its1"
      "list_all2 (\<lambda>it it'. Suc (batches_left it') = batches_left it) its its1"
    using Cons.IH Cons.prems by auto
  show ?case using n r by simp
qed

lemma fetch_offline_step:
  assumes "\<forall>g xs. length (fst (shuffle g xs)) = length xs"
    and "0 < offline_batch_size batch_size task"
    and "list_all (\<lambda>ds. 0 < length ds div offline_batch_size batch_size task) (take task dss)"
    and "list_all2 (in_phase (offline_batch_size batch_size task) n) (take task dss) its"
  shows "\<exists>bs its' g'. fetch_offline shuffle dss batch_size task its g = Inr (bs, its', g')
           \<and> list_all2 (in_phase (offline_batch_size batch_size task) (Suc n)) (take task dss) its'"
proof -
  define bs where "bs = offline_batch_size batch_size task"
  define D where "D = take task dss"
  have pos: "0 < bs" and full: "list_all (\<lambda>ds. 0 < length ds div bs) D"
    and ph: "list_all2 (in_phase bs n) D its"
    using assms(2-4) by (simp_all add: bs_def D_def)
  have len: "length D = length its" using ph by (rule list_all2_lengthD)
  have phi: "\<And>i. i < length its \<Longrightarrow> in_phase bs n (D ! i) (its ! i)"
    using ph by (simp add: list_all2_nthD2)
  have cnt: "list_all counted its"
    unfolding list_all_length using phi by (simp add: in_phase_def)
  obtain its1 g1 where u: "update_iters shuffle bs (zip D its) g = Inr (its1, g1)"
     "list_all loaded its1"
     "list_all2 (\<lambda>(ds, it) it'. batches_left it' =
                  Suc (next_count (length ds div bs) (batches_left it))) (zip D its) its1"
    using update_iters_step[OF assms(1) pos len full cnt, of g] by blast
  obtain bb its2 where n: "next_batches its1 = Inr (bb, its2)" "list_all counted its2"
      "list_all2 (\<lambda>it it'. Suc (batches_left it') = batches_left it) its1 its2"
    using next_batches_step[OF u(2)] by blast
  have l1: "length its1 = length its" using list_all2_lengthD[OF u(3)] len by simp
  have l2: "length its2 = length its" using list_all2_lengthD[OF n(3)] l1 by simp
  have "list_all2 (in_phase bs (Suc n)) D its2"
  proof (rule list_all2_all_nthI)
    show "length D = length its2" using len l2 by simp
  next
    fix i assume i: "i < length D"
    then have ii: "i < length its" using len by simp
    have iz: "i < length (zip D its)" using i ii by simp
    have "(\<lambda>(ds, it) it'. batches_left it' =
                  Suc (next_count (length ds div bs) (batches_left it))) (zip D its ! i) (its1 ! i)"
      using list_all2_nthD[OF u(3) iz] .
    then have a: "batches_left (its1 ! i) =
          Suc (next_count (length (D ! i) div bs) (batches_left (its ! i)))"
      using i ii by simp
    have b: "Suc (batches_left (its2 ! i)) = batches_left (its1 ! i)"
      using list_all2_nthD[OF n(3), of i] ii l1 by simp
    have c: "batches_left (its ! i) = (next_count (length (D ! i) div bs) ^^ n) 0"
      using phi[OF ii] by (simp add: in_phase_def)
    have d: "counted (its2 ! i)" using n(2) ii l2 by (simp add: list_all_length)
    show "in_phase bs (Suc n) (D ! i) (its2 ! i)"
      using a b c d by (simp add: in_phase_def)
  qed
  moreover have "fetch_offline shuffle dss batch_size task its g = Inr (bb, its2, g1)"
    using u(1) n(1) by (simp add: fetch_offline_def bs_def D_def)
  ultimately show ?thesis by (simp add: bs_def D_def)
qed

lemma fetch_offline_n_run:
  assumes "\<forall>g xs. length (fst (shuffle g xs)) = length xs"
    and "0 < offline_batch_size batch_size task"
    and "list_all (\<lambda>ds. 0 < length ds div offline_batch_size batch_size task) (take task dss)"
    and "list_all2 (in_phase (offline_batch_size batch_size task) n) (take task dss) its"
  shows "\<exists>its' g'. fetch_offline_n shuffle dss batch_size task m its g = Inr (its', g')
           \<and> list_all2 (in_phase (offline_batch_size batch_size task) (n + m)) (take task dss) its'"
  using assms(4)
proof (induction m arbitrary: its g n)
  case 0
  then show ?case by simp
next
  case (Suc m)
  obtain bs its1 g1 where f: "fetch_offline shuffle dss batch_size task its g = Inr (bs, its1, g1)"
      "list_all2 (in_phase (offline_batch_size batch_size task) (Suc n)) (take task dss) its1"
    using fetch_offline_step[OF assms(1-3) Suc.prems] by blast
  from Suc.IH[OF f(2), of g1] f(1) show ?case by simp
qed

lemma offline_batch_size_pos: "0 < batch_size \<Longrightarrow> 0 < task \<Longrightarrow> 0 < offline_batch_size batch_size task"
proof -
  assume a: "0 < batch_size" "0 < task"
  have "int batch_size \<le> int task * ceil_div (int batch_size) (int task)"
    using ceil_div_bounds(1)[of "int task" "int batch_size"] a by simp
  then have "0 < int task * ceil_div (int batch_size) (int task)" using a by linarith
  then have "0 < ceil_div (int batch_size) (int task)" using a
    by (simp add: zero_less_mult_iff)
  then show ?thesis by (simp add: offline_batch_size_def)
qed

lemma fetch_single_rebuild:
  assumes "\<forall>g xs. length (fst (shuffle g xs)) = length xs" "0 < bs"
    and "0 < length ds div bs" "data_loader it = Some []" "iters_left it = 1"
  shows "\<exists>dl g'. get_data_loader shuffle ds bs g = Inr (dl, g')
           \<and> length dl = length ds div bs
           \<and> fetch_single shuffle ds bs it g =
               Inr (hd dl, \<lparr>data_loader = Some (tl dl), iters_left = int (length dl)\<rparr>, g')"
proof -
  obtain dl g' where d: "get_data_loader shuffle ds bs g = Inr (dl, g')"
      "length dl = length ds div bs"
    using get_data_loader_length[OF assms(1,2)] by blast
  then have "dl \<noteq> []" using assms(3) by auto
  then obtain b rest where "dl = b # rest" by (cases dl) auto
  then show ?thesis using d assms(5)
    by (simp add: fetch_single_def update_iter_def next_batch_def)
qed

text \<open>
  Claim C5. Let the shuffle keep the length of the dataset. In the mode with a single
  active task, for a dataset with at least one full batch, every pass of the loop
  obtains a batch (no StopIteration or other error, for any number of passes): after
  pass \<open>n + 1\<close> the iterator has \<open>L - 1 - n mod L\<close> batches left, \<open>L = len(dataset) // batch_size\<close>,
  and the counter is one more. So after exactly \<open>L\<close> batches the iterator is exhausted
  with the counter at 1, and the next pass rebuilds it from a fresh shuffle of the
  task's dataset, yields its first batch and sets the counter to the new iterator's
  length \<open>L\<close>. The same holds for every per-task iterator of the offline mode, with the
  batch size \<open>ceil(batch_size / task)\<close>.
\<close>

theorem C5_iterator_rebuilt_on_exhaustion:
  assumes "\<forall>g xs. length (fst (shuffle g xs)) = length xs"
  shows "(0 < batch_size \<and> batch_size \<le> length train_dataset \<longrightarrow>
            (\<exists>it g'. fetch_single_n shuffle train_dataset batch_size (Suc n) new_task_iter g
                        = Inr (it, g')
               \<and> batches_left it = length train_dataset div batch_size - 1
                                      - n mod (length train_dataset div batch_size)
               \<and> iters_left it = int (batches_left it) + 1)
          \<and> (\<forall>it. data_loader it = Some [] \<and> iters_left it = 1 \<longrightarrow>
               (\<exists>dl g'. get_data_loader shuffle train_dataset batch_size g = Inr (dl, g')
                  \<and> length dl = length train_dataset div batch_size
                  \<and> fetch_single shuffle train_dataset batch_size it g =
                      Inr (hd dl, \<lparr>data_loader = Some (tl dl), iters_left = int (length dl)\<rparr>, g'))))
       \<and> (0 < batch_size \<and> 0 < task
            \<and> (\<forall>ds \<in> set (take task train_datasets).
                  offline_batch_size batch_size task \<le> length ds) \<longrightarrow>
            (\<exists>its g'. fetch_offline_n shuffle train_datasets batch_size task (Suc n)
                          (replicate (min task (length train_datasets)) new_task_iter) g
                        = Inr (its, g')
               \<and> length its = min task (length train_datasets)
               \<and> (\<forall>i < length its.
                     batches_left (its ! i) =
                       length (train_datasets ! i) div offline_batch_size batch_size task - 1
                       - n mod (length (train_datasets ! i) div offline_batch_size batch_size task)
                   \<and> iters_left (its ! i) = int (batches_left (its ! i)) + 1)))"
proof (intro conjI impI)
  assume a: "0 < batch_size \<and> batch_size \<le> length train_dataset"
  then have L: "0 < length train_dataset div batch_size" by (simp add: div_greater_zero_iff)
  have bp: "0 < batch_size" using a by simp
  obtain it g' where r: "fetch_single_n shuffle train_dataset batch_size (Suc n) new_task_iter g
       = Inr (it, g')" "counted it"
     "batches_left it = (next_count (length train_dataset div batch_size) ^^ Suc n) 0"
    using fetch_single_n_run[OF assms bp L counted_new(1), of "Suc n" g]
    unfolding counted_new(2) by blast
  have "batches_left it = length train_dataset div batch_size - 1
                                      - n mod (length train_dataset div batch_size)"
    using r(3) next_count_funpow[OF L, of n] by simp
  then show "\<exists>it g'. fetch_single_n shuffle train_dataset batch_size (Suc n) new_task_iter g
                        = Inr (it, g')
               \<and> batches_left it = length train_dataset div batch_size - 1
                                      - n mod (length train_dataset div batch_size)
               \<and> iters_left it = int (batches_left it) + 1"
    using r(1,2) by (auto simp: counted_def)
  show "\<forall>it. data_loader it = Some [] \<and> iters_left it = 1 \<longrightarrow>
               (\<exists>dl g'. get_data_loader shuffle train_dataset batch_size g = Inr (dl, g')
                  \<and> length dl = length train_dataset div batch_size
                  \<and> fetch_single shuffle train_dataset batch_size it g =
                      Inr (hd dl, \<lparr>data_loader = Some (tl dl), iters_left = int (length dl)\<rparr>, g'))"
    using fetch_single_rebuild[OF assms bp L] by blast
next
  assume a: "0 < batch_size \<and> 0 < task
            \<and> (\<forall>ds \<in> set (take task train_datasets).
                  offline_batch_size batch_size task \<le> length ds)"
  define bs where "bs = offline_batch_size batch_size task"
  define D where "D = take task train_datasets"
  define m where "m = min task (length train_datasets)"
  have pos: "0 < bs" using a by (simp add: bs_def offline_batch_size_pos)
  have lD: "length D = m" by (simp add: D_def m_def min.commute)
  have full: "list_all (\<lambda>ds. 0 < length ds div bs) D"
    using a pos by (simp add: list_all_iff div_greater_zero_iff bs_def D_def)
  have init: "list_all2 (in_phase bs 0) D (replicate m new_task_iter)"
    using lD by (simp add: list_all2_conv_all_nth in_phase_def counted_new)
  obtain its g' where r: "fetch_offline_n shuffle train_datasets batch_size task (Suc n)
                          (replicate m new_task_iter) g = Inr (its, g')"
     "list_all2 (in_phase bs (0 + Suc n)) D its"
    using fetch_offline_n_run[OF assms, of batch_size task train_datasets 0
        "replicate m new_task_iter" "Suc n" g] pos full init
    unfolding bs_def D_def by blast
  have li: "length its = m" using list_all2_lengthD[OF r(2)] lD by simp
  have "\<forall>i < length its.
          batches_left (its ! i) = length (train_datasets ! i) div bs - 1
                                    - n mod (length (train_datasets ! i) div bs)
        \<and> iters_left (its ! i) = int (batches_left (its ! i)) + 1"
  proof (intro allI impI)
    fix i assume i: "i < length its"
    then have iD: "i < length D" using li lD by simp
    have p: "in_phase bs (Suc n) (D ! i) (its ! i)"
      using list_all2_nthD[OF r(2) iD] by simp
    have Di: "D ! i = train_datasets ! i" using i li by (simp add: D_def m_def)
    have Lp: "0 < length (train_datasets ! i) div bs"
      using full iD unfolding list_all_length Di[symmetric] by blast
    show "batches_left (its ! i) = length (train_datasets ! i) div bs - 1
                                    - n mod (length (train_datasets ! i) div bs)
        \<and> iters_left (its ! i) = int (batches_left (its ! i)) + 1"
      using p next_count_funpow[OF Lp, of n] unfolding in_phase_def counted_def Di by simp
  qed
  then show "\<exists>its g'. fetch_offline_n shuffle train_datasets batch_size task (Suc n)
                          (replicate (min task (length train_datasets)) new_task_iter) g
                        = Inr (its, g')
               \<and> length its = min task (length train_datasets)
               \<and> (\<forall>i < length its.
                     batches_left (its ! i) =
                       length (train_datasets ! i) div offline_batch_size batch_size task - 1
                       - n mod (length (train_datasets ! i) div offline_batch_size batch_size task)
                   \<and> iters_left (its ! i) = int (batches_left (its ! i)) + 1)"
    using r(1) li unfolding bs_def m_def by blast
qed

theorem C5_iterator_rebuilt_on_exhaustion_witness:
  "(\<forall>g xs. length (fst (rev_shuffle g (xs :: nat list))) = length xs)
   \<and> (\<exists>it g'. fetch_single_n rev_shuffle [1, 2, 3, 4, 5 :: nat] 2 (Suc 2) new_task_iter 0
                 = Inr (it, g')
         \<and> batches_left it = 1 \<and> iters_left it = 2)
   \<and> (\<exists>its g'. fetch_offline_n rev_shuffle [[1, 2, 3], [4, 5, 6, 7 :: nat]] 2 2 (Suc 2)
                   (replicate 2 new_task_iter) 0 = Inr (its, g')
         \<and> length its = 2 \<and> batches_left (its ! 0) = 0 \<and> iters_left (its ! 0) = 1
         \<and> batches_left (its ! 1) = 1 \<and> iters_left (its ! 1) = 2)"
proof -
  have h: "\<forall>g xs. length (fst (rev_shuffle g (xs :: nat list))) = length xs"
    by (simp add: rev_shuffle_def)
  note t = C5_iterator_rebuilt_on_exhaustion[OF h, where batch_size = 2
      and train_dataset = "[1, 2, 3, 4, 5]" and n = 2 and g = 0 and task = 2
      and train_datasets = "[[1, 2, 3], [4, 5, 6, 7]]"]
  have p1: "0 < (2::nat) \<and> 2 \<le> length [1, 2, 3, 4, 5 :: nat]" by simp
  have c1: "length [1, 2, 3, 4, 5 :: nat] div 2 - 1 - 2 mod (length [1, 2, 3, 4, 5 :: nat] div 2)
            = 1"
    by code_simp
  have s: "\<exists>it g'. fetch_single_n rev_shuffle [1, 2, 3, 4, 5 :: nat] 2 (Suc 2) new_task_iter 0
                 = Inr (it, g')
         \<and> batches_left it = 1 \<and> iters_left it = 2"
    using t[THEN conjunct1, THEN mp, OF p1, THEN conjunct1] unfolding c1 by auto
  have o: "offline_batch_size 2 2 = 1" by (simp add: offline_batch_size_def ceil_div_def)
  have p2: "0 < (2::nat) \<and> 0 < (2::nat)
            \<and> (\<forall>ds \<in> set (take 2 [[1, 2, 3], [4, 5, 6, 7 :: nat]]).
                  offline_batch_size 2 2 \<le> length ds)"
    unfolding o by simp
  have m: "min 2 (length [[1, 2, 3], [4, 5, 6, 7 :: nat]]) = 2" by simp
  have c2: "length ([[1, 2, 3], [4, 5, 6, 7 :: nat]] ! 0) div 1 - 1
              - 2 mod (length ([[1, 2, 3], [4, 5, 6, 7 :: nat]] ! 0) div 1) = 0"
       "length ([[1, 2, 3], [4, 5, 6, 7 :: nat]] ! 1) div 1 - 1
              - 2 mod (length ([[1, 2, 3], [4, 5, 6, 7 :: nat]] ! 1) div 1) = 1"
    by code_simp+
  obtain its g' where r: "fetch_offline_n rev_shuffle [[1, 2, 3], [4, 5, 6, 7 :: nat]] 2 2 (Suc 2)
                   (replicate 2 new_task_iter) 0 = Inr (its, g')" "length its = 2"
     "\<forall>i < length its.
         batches_left (its ! i) =
           length ([[1, 2, 3], [4, 5, 6, 7 :: nat]] ! i) div 1 - 1
            - 2 mod (length ([[1, 2, 3], [4, 5, 6, 7 :: nat]] ! i) div 1)
       \<and> iters_left (its ! i) = int (batches_left (its ! i)) + 1"
    using t[THEN conjunct2, THEN mp, OF p2] unfolding o m by blast
  have "batches_left (its ! 0) = 0 \<and> iters_left (its ! 0) = 1"
    using r(3)[rule_format, of 0] r(2) unfolding c2 by simp
  moreover have "batches_left (its ! 1) = 1 \<and> iters_left (its ! 1) = 2"
    using r(3)[rule_format, of 1] r(2) unfolding c2 by simp
  ultimately have f: "\<exists>its g'. fetch_offline_n rev_shuffle [[1, 2, 3], [4, 5, 6, 7 :: nat]] 2 2 (Suc 2)
                   (replicate 2 new_task_iter) 0 = Inr (its, g')
         \<and> length its = 2 \<and> batches_left (its ! 0) = 0 \<and> iters_left (its ! 0) = 1
         \<and> batches_left (its ! 1) = 1 \<and> iters_left (its ! 1) = 2"
    using r(1,2) by blast
  show ?thesis using h s f by blast
qed

subsection \<open>Ranking and class-balanced selection\<close>

lemma count_uniform_dist:
  assumes "0 < n" "i < n"
  shows "count_list (uniform_dist r n) i = quota r n i"
proof (induction r)
  case 0
  show ?case by (simp add: uniform_dist_def quota_def)
next
  case (Suc r)
  have lt: "r mod n < n" using assms(1) by simp
  have c: "count_list (uniform_dist (Suc r) n) i
         = count_list (uniform_dist r n) i + (if r mod n = i then 1 else 0)"
    by (simp add: uniform_dist_def)
  show ?case
  proof (cases "Suc (r mod n) = n")
    case True
    then have "Suc r mod n = 0" "Suc r div n = Suc (r div n)"
      by (simp_all add: mod_Suc div_Suc)
    then show ?thesis using c Suc True assms(2) by (auto simp: quota_def)
  next
    case False
    then have "Suc r mod n = Suc (r mod n)" "Suc r div n = r div n"
      by (simp_all add: mod_Suc div_Suc)
    then show ?thesis using c Suc by (auto simp: quota_def)
  qed
qed

lemma set_uniform_dist:
  assumes "0 < n" "n \<le> r"
  shows "set (uniform_dist r n) = {0 ..< n}"
proof
  show "set (uniform_dist r n) \<subseteq> {0 ..< n}" using assms(1) by (auto simp: uniform_dist_def)
  show "{0 ..< n} \<subseteq> set (uniform_dist r n)"
  proof
    fix i assume "i \<in> {0 ..< n}"
    then have "i < r" "i mod n = i" using assms(2) by auto
    then show "i \<in> set (uniform_dist r n)"
      unfolding uniform_dist_def by (metis atLeastLessThan_iff image_eqI list.set_map set_upt zero_le)
  qed
qed

lemma unique_counts_uniform_dist:
  assumes "0 < n" "n \<le> r"
  shows "unique_counts (uniform_dist r n) = map (quota r n) [0 ..< n]"
proof -
  have "sort (remdups (uniform_dist r n)) = [0 ..< n]"
    by (rule sorted_distinct_set_unique) (simp_all add: set_uniform_dist[OF assms])
  then show ?thesis
    using assms(1) by (simp add: unique_counts_def count_uniform_dist)
qed

lemma quota_bounds: "r div n \<le> quota r n i" "quota r n i \<le> r div n + 1"
  by (simp_all add: quota_def)

lemma quota_within_one:
  assumes "0 < n"
  shows "within_one_of_share (quota r n i) (int r) n"
proof -
  have r: "int r = int n * int (r div n) + int (r mod n)"
    by (metis mult_div_mod_eq of_nat_add of_nat_mult)
  have m: "int (r mod n) < int n" using assms by simp
  show ?thesis
  proof (cases "i < r mod n")
    case True
    then have "int n * int (quota r n i) - int r = int n - int (r mod n)"
      using r by (simp add: quota_def algebra_simps)
    then show ?thesis using m by (simp add: within_one_of_share_def)
  next
    case False
    then have "int n * int (quota r n i) - int r = - int (r mod n)"
      using r by (simp add: quota_def algebra_simps)
    then show ?thesis using m by (simp add: within_one_of_share_def)
  qed
qed

lemma filter_zip_labels:
  "map fst (filter (\<lambda>(j, l). l = c) (zip indices (map ((!) y_used) indices)))
     = filter (\<lambda>j. y_used ! j = c) indices"
  by (induction indices) auto

lemma balanced_indices_Inr:
  assumes "\<forall>i \<in> set cs. i < length counts"
  shows "balanced_indices counts (map ((!) y_used) indices) indices cs =
           Inr (map (\<lambda>i. take (counts ! i) (filter (\<lambda>j. y_used ! j = int i) indices)) cs)"
  using assms by (induction cs) (simp_all add: filter_zip_labels)

lemma filter_concat_classes:
  assumes "distinct cs"
  shows "filter (\<lambda>j. y_used ! j = int c)
           (concat (map (\<lambda>i. take (q i) (filter (\<lambda>j. y_used ! j = int i) indices)) cs))
         = (if c \<in> set cs then take (q c) (filter (\<lambda>j. y_used ! j = int c) indices) else [])"
  using assms
proof (induction cs)
  case Nil
  show ?case by simp
next
  case (Cons a cs)
  have same: "filter (\<lambda>j. y_used ! j = int c) (take (q c) (filter (\<lambda>j. y_used ! j = int c) indices))
        = take (q c) (filter (\<lambda>j. y_used ! j = int c) indices)"
    by (rule filter_True) (auto dest: in_set_takeD)
  have other: "a \<noteq> c \<Longrightarrow>
      filter (\<lambda>j. y_used ! j = int c) (take (q a) (filter (\<lambda>j. y_used ! j = int a) indices)) = []"
    by (auto simp: filter_empty_conv dest!: in_set_takeD)
  show ?case using Cons same other by auto
qed

lemma mset_insert_desc: "mset (insert_desc m i acc) = add_mset i (mset acc)"
  by (induction acc) auto

lemma mset_foldl_insert_desc:
  "mset (foldl (\<lambda>acc i. insert_desc m i acc) acc xs) = mset acc + mset xs"
  by (induction xs arbitrary: acc) (simp_all add: mset_insert_desc)

lemma mset_argsort_desc: "mset (argsort_desc m) = mset [0 ..< length m]"
  by (simp add: argsort_desc_def mset_foldl_insert_desc)

lemma set_argsort_desc: "set (argsort_desc m) = {0 ..< length m}"
  using mset_argsort_desc[of m] by (metis set_mset_mset set_upt)

lemma sorted_insert_desc:
  "sorted_wrt (\<lambda>i j. m ! j \<le> m ! i) acc \<Longrightarrow> sorted_wrt (\<lambda>i j. m ! j \<le> m ! i) (insert_desc m i acc)"
proof (induction acc)
  case Nil
  show ?case by simp
next
  case (Cons j js)
  have s: "set (insert_desc m i js) = insert i (set js)"
    using mset_insert_desc[of m i js] by (metis set_mset_add_mset_insert set_mset_mset)
  show ?case using Cons by (auto simp: s)
qed

lemma sorted_foldl_insert_desc:
  "sorted_wrt (\<lambda>i j. m ! j \<le> m ! i) acc
     \<Longrightarrow> sorted_wrt (\<lambda>i j. m ! j \<le> m ! i) (foldl (\<lambda>acc i. insert_desc m i acc) acc xs)"
  by (induction xs arbitrary: acc) (simp_all add: sorted_insert_desc)

lemma sorted_argsort_desc: "sorted_wrt (\<lambda>i j. m ! j \<le> m ! i) (argsort_desc m)"
  by (simp add: argsort_desc_def sorted_foldl_insert_desc)

lemma set_ranked_indices:
  assumes "\<forall>g xs. mset (fst (shuffle g xs)) = mset xs"
  shows "set (fst (ranked_indices sample_method shuffle g metric)) = {0 ..< length metric}"
proof -
  have "mset (fst (ranked_indices sample_method shuffle g metric)) = mset (argsort_desc metric)"
    using assms by (simp add: ranked_indices_def)
  then show ?thesis by (metis set_mset_mset set_argsort_desc)
qed

lemma index_tensor_Inr:
  "set idx \<subseteq> {0 ..< length xs} \<Longrightarrow> index_tensor xs idx = Inr (map ((!) xs) idx)"
  by (auto simp: index_tensor_def list_all_iff)

lemma select_replay_balanced_unfold:
  assumes "sample_method \<noteq> ''random_large''" "sample_method \<noteq> ''curated_softmax''"
    and "\<not> batch_size_replay < 0" "length ac \<noteq> 0"
    and "ranked_indices sample_method shuffle g metric = (ranked, g')"
    and "index_tensor y_used ranked = Inr labels"
    and "balanced_indices (unique_counts (uniform_dist (nat batch_size_replay) (length ac)))
           labels ranked [0 ..< length ac] = Inr per_class"
    and "index_tensor x_replay (concat per_class) = Inr xs"
  shows "select_replay sample_method shuffle g metric y_used (Some ac) batch_size_replay x_replay
           = Inr (xs, concat per_class, g')"
  unfolding select_replay_def assms(5) using assms(1-4,6-8) by simp

lemma select_replay_balanced:
  assumes "sample_method \<noteq> ''random_large''" "sample_method \<noteq> ''curated_softmax''"
    and "\<forall>g xs. mset (fst (shuffle g xs)) = mset xs"
    and "length y_used = length metric" "length x_replay = length metric"
    and "0 < length ac" "int (length ac) \<le> batch_size_replay"
    and "ranked = fst (ranked_indices sample_method shuffle g metric)"
    and "idx = concat (map (\<lambda>i. take (quota (nat batch_size_replay) (length ac) i)
                                   (filter (\<lambda>j. y_used ! j = int i) ranked)) [0 ..< length ac])"
  shows "select_replay sample_method shuffle g metric y_used (Some ac) batch_size_replay x_replay =
           Inr (map ((!) x_replay) idx, idx, snd (ranked_indices sample_method shuffle g metric))"
proof -
  define n where "n = length ac"
  define r where "r = nat batch_size_replay"
  define per_class where "per_class = map (\<lambda>i. take (quota r n i)
                                   (filter (\<lambda>j. y_used ! j = int i) ranked)) [0 ..< n]"
  have idx: "idx = concat per_class" by (simp add: assms(9) per_class_def n_def r_def)
  have ri: "ranked_indices sample_method shuffle g metric
              = (ranked, snd (ranked_indices sample_method shuffle g metric))"
    by (simp add: assms(8))
  have sr: "set ranked = {0 ..< length metric}"
    unfolding assms(8) by (rule set_ranked_indices[OF assms(3)])
  have nr: "0 < n" "n \<le> r" using assms(6,7) by (simp_all add: n_def r_def)
  have nn: "\<not> batch_size_replay < 0" "length ac \<noteq> 0" using assms(6,7) by simp_all
  have cnt: "unique_counts (uniform_dist r n) = map (quota r n) [0 ..< n]"
    by (rule unique_counts_uniform_dist[OF nr])
  have lab: "index_tensor y_used ranked = Inr (map ((!) y_used) ranked)"
    by (rule index_tensor_Inr) (simp add: sr assms(4))
  have bal: "balanced_indices (map (quota r n) [0 ..< n]) (map ((!) y_used) ranked) ranked [0 ..< n]
      = Inr (map (\<lambda>i. take (map (quota r n) [0 ..< n] ! i)
                         (filter (\<lambda>j. y_used ! j = int i) ranked)) [0 ..< n])"
    by (rule balanced_indices_Inr) simp
  have bal': "map (\<lambda>i. take (map (quota r n) [0 ..< n] ! i)
                         (filter (\<lambda>j. y_used ! j = int i) ranked)) [0 ..< n] = per_class"
    unfolding per_class_def by (rule map_cong) simp_all
  have bal'': "balanced_indices (unique_counts (uniform_dist (nat batch_size_replay) (length ac)))
           (map ((!) y_used) ranked) ranked [0 ..< length ac] = Inr per_class"
    unfolding cnt[unfolded n_def r_def] by (rule bal[unfolded bal', unfolded n_def r_def])
  have "set (concat per_class) \<subseteq> set ranked"
    unfolding per_class_def by (auto dest: in_set_takeD)
  then have sub: "set (concat per_class) \<subseteq> {0 ..< length x_replay}"
    unfolding sr assms(5) .
  have xs: "index_tensor x_replay (concat per_class) = Inr (map ((!) x_replay) (concat per_class))"
    by (rule index_tensor_Inr[OF sub])
  show ?thesis
    unfolding idx by (rule select_replay_balanced_unfold[OF assms(1,2) nn ri lab bal'' xs])
qed

lemma select_replay_unbalanced_unfold:
  assumes "sample_method = ''random_large'' \<or> sample_method = ''curated_softmax''"
    and "ranked_indices sample_method shuffle g metric = (ranked, g')"
    and "index_tensor x_replay ranked = Inr xs"
  shows "select_replay sample_method shuffle g metric y_used allowed_classes batch_size_replay x_replay
           = Inr (xs, ranked, g')"
proof -
  show ?thesis unfolding select_replay_def assms(2) using assms(1,3) by auto
qed

lemma select_replay_unbalanced:
  assumes "sample_method = ''random_large'' \<or> sample_method = ''curated_softmax''"
    and "\<forall>g xs. mset (fst (shuffle g xs)) = mset xs"
    and "length x_replay = length metric"
    and "ranked = fst (ranked_indices sample_method shuffle g metric)"
  shows "select_replay sample_method shuffle g metric y_used allowed_classes batch_size_replay x_replay =
           Inr (map ((!) x_replay) ranked, ranked, snd (ranked_indices sample_method shuffle g metric))"
proof -
  have ri: "ranked_indices sample_method shuffle g metric
              = (ranked, snd (ranked_indices sample_method shuffle g metric))"
    by (simp add: assms(4))
  have sr: "set ranked = {0 ..< length metric}"
    unfolding assms(4) by (rule set_ranked_indices[OF assms(2)])
  have xs: "index_tensor x_replay ranked = Inr (map ((!) x_replay) ranked)"
    by (rule index_tensor_Inr) (simp add: sr assms(3))
  show ?thesis by (rule select_replay_unbalanced_unfold[OF assms(1) ri xs])
qed

lemma class_count_balanced:
  assumes "i < n"
  shows "filter (\<lambda>j. y_used ! j = int i)
           (concat (map (\<lambda>i. take (q i) (filter (\<lambda>j. y_used ! j = int i) ranked)) [0 ..< n]))
         = take (q i) (filter (\<lambda>j. y_used ! j = int i) ranked)"
  using filter_concat_classes[of "[0 ..< n]" y_used i q ranked] assms by simp

text \<open>
  Claim C2, as the code has it. The guard of line 417 sends every policy other than
  \<^verbatim>\<open>random_large\<close> and \<^verbatim>\<open>curated_softmax\<close> through the per-class selection, so
  \<^verbatim>\<open>uniform_large\<close> is balanced (after its shuffle) and \<^verbatim>\<open>curated_softmax\<close> is not. For a
  pool with a label and a metric for every candidate, \<open>n \<ge> 1\<close> allowed classes and a
  replay size of at least \<open>n\<close>, the balanced selection succeeds and holds, of each allowed
  class \<open>i\<close>, exactly the first \<open>quota i\<close> candidates of that class in the ranking (all of
  them when the pool has fewer), where \<open>quota i\<close> is \<open>replay_size div n\<close>, plus one for
  \<open>i < replay_size mod n\<close>, and so within one of \<open>replay_size / n\<close>. Without a shuffle the
  ranking is by decreasing metric. \<^verbatim>\<open>random_large\<close> and \<^verbatim>\<open>curated_softmax\<close> take a prefix
  of the ranking whatever the classes are.
\<close>

theorem C2_class_balanced_selection:
  assumes "\<forall>g xs. mset (fst (shuffle g xs)) = mset xs"
    and "length y_used = length metric" "length x_replay = length metric"
  shows "(sample_method \<noteq> ''random_large'' \<and> sample_method \<noteq> ''curated_softmax''
            \<and> 0 < length ac \<and> int (length ac) \<le> batch_size_replay \<longrightarrow>
          (\<exists>xs idx g'.
              select_replay sample_method shuffle g metric y_used (Some ac) batch_size_replay x_replay
                = Inr (xs, idx, g')
            \<and> xs = map ((!) x_replay) idx
            \<and> (\<forall>i < length ac.
                  filter (\<lambda>j. y_used ! j = int i) idx =
                    take (quota (nat batch_size_replay) (length ac) i)
                      (filter (\<lambda>j. y_used ! j = int i)
                         (fst (ranked_indices sample_method shuffle g metric)))
                \<and> class_count y_used idx i =
                    min (quota (nat batch_size_replay) (length ac) i)
                      (class_count y_used (fst (ranked_indices sample_method shuffle g metric)) i)
                \<and> within_one_of_share (quota (nat batch_size_replay) (length ac) i)
                    batch_size_replay (length ac))))
       \<and> (sample_method = ''random_large'' \<or> sample_method = ''curated_softmax'' \<longrightarrow>
          (\<exists>xs idx g' k.
              select_replay sample_method shuffle g metric y_used allowed_classes batch_size_replay
                x_replay = Inr (xs, idx, g')
            \<and> idx = take k (fst (ranked_indices sample_method shuffle g metric))
            \<and> xs = map ((!) x_replay) idx))
       \<and> (sample_method \<noteq> ''uniform_large'' \<and> sample_method \<noteq> ''random_large'' \<longrightarrow>
            fst (ranked_indices sample_method shuffle g metric) = argsort_desc metric)
       \<and> sorted_wrt (\<lambda>i j. metric ! j \<le> metric ! i) (argsort_desc metric)"
proof (intro conjI impI)
  assume a: "sample_method \<noteq> ''random_large'' \<and> sample_method \<noteq> ''curated_softmax''
            \<and> 0 < length ac \<and> int (length ac) \<le> batch_size_replay"
  define ranked where "ranked = fst (ranked_indices sample_method shuffle g metric)"
  define q where "q = quota (nat batch_size_replay) (length ac)"
  define idx where "idx = concat (map (\<lambda>i. take (q i)
                                   (filter (\<lambda>j. y_used ! j = int i) ranked)) [0 ..< length ac])"
  have a1: "sample_method \<noteq> ''random_large''" and a2: "sample_method \<noteq> ''curated_softmax''"
    and a3: "0 < length ac" and a4: "int (length ac) \<le> batch_size_replay"
    using a by blast+
  have sel: "select_replay sample_method shuffle g metric y_used (Some ac) batch_size_replay x_replay
      = Inr (map ((!) x_replay) idx, idx, snd (ranked_indices sample_method shuffle g metric))"
    by (rule select_replay_balanced[OF a1 a2 assms a3 a4 ranked_def])
       (simp add: idx_def q_def)
  have nn: "int (nat batch_size_replay) = batch_size_replay" using a3 a4 by simp
  have per: "\<forall>i < length ac.
        filter (\<lambda>j. y_used ! j = int i) idx = take (q i) (filter (\<lambda>j. y_used ! j = int i) ranked)
      \<and> class_count y_used idx i = min (q i) (class_count y_used ranked i)
      \<and> within_one_of_share (q i) batch_size_replay (length ac)"
  proof (intro allI impI)
    fix i assume i: "i < length ac"
    have f: "filter (\<lambda>j. y_used ! j = int i) idx
               = take (q i) (filter (\<lambda>j. y_used ! j = int i) ranked)"
      unfolding idx_def by (rule class_count_balanced[OF i])
    have c: "class_count y_used idx i = min (q i) (class_count y_used ranked i)"
      by (simp add: class_count_def f min.commute)
    have w: "within_one_of_share (q i) batch_size_replay (length ac)"
      using quota_within_one[OF a3, of "nat batch_size_replay" i] unfolding nn q_def .
    show "filter (\<lambda>j. y_used ! j = int i) idx = take (q i) (filter (\<lambda>j. y_used ! j = int i) ranked)
      \<and> class_count y_used idx i = min (q i) (class_count y_used ranked i)
      \<and> within_one_of_share (q i) batch_size_replay (length ac)"
      using f c w by blast
  qed
  show "\<exists>xs idx g'.
              select_replay sample_method shuffle g metric y_used (Some ac) batch_size_replay x_replay
                = Inr (xs, idx, g')
            \<and> xs = map ((!) x_replay) idx
            \<and> (\<forall>i < length ac.
                  filter (\<lambda>j. y_used ! j = int i) idx =
                    take (quota (nat batch_size_replay) (length ac) i)
                      (filter (\<lambda>j. y_used ! j = int i)
                         (fst (ranked_indices sample_method shuffle g metric)))
                \<and> class_count y_used idx i =
                    min (quota (nat batch_size_replay) (length ac) i)
                      (class_count y_used (fst (ranked_indices sample_method shuffle g metric)) i)
                \<and> within_one_of_share (quota (nat batch_size_replay) (length ac) i)
                    batch_size_replay (length ac))"
    using sel per unfolding q_def ranked_def by blast
next
  assume a: "sample_method = ''random_large'' \<or> sample_method = ''curated_softmax''"
  define ranked where "ranked = fst (ranked_indices sample_method shuffle g metric)"
  have sel: "select_replay sample_method shuffle g metric y_used allowed_classes batch_size_replay
                x_replay
      = Inr (map ((!) x_replay) ranked, ranked, snd (ranked_indices sample_method shuffle g metric))"
    by (rule select_replay_unbalanced[OF a assms(1,3) ranked_def])
  have "ranked = take (length ranked) ranked" by simp
  then show "\<exists>xs idx g' k.
              select_replay sample_method shuffle g metric y_used allowed_classes batch_size_replay
                x_replay = Inr (xs, idx, g')
            \<and> idx = take k (fst (ranked_indices sample_method shuffle g metric))
            \<and> xs = map ((!) x_replay) idx"
    using sel unfolding ranked_def by blast
next
  assume "sample_method \<noteq> ''uniform_large'' \<and> sample_method \<noteq> ''random_large''"
  then show "fst (ranked_indices sample_method shuffle g metric) = argsort_desc metric"
    by (simp add: ranked_indices_def)
next
  show "sorted_wrt (\<lambda>i j. metric ! j \<le> metric ! i) (argsort_desc metric)"
    by (rule sorted_argsort_desc)
qed

theorem C2_class_balanced_selection_witness:
  "(\<forall>g xs. mset (fst (rev_shuffle g (xs :: nat list))) = mset xs)
   \<and> length [0, 1, 0, 1, 0, 1, 1, 1 :: int] = length [3, 1, 4, 1, 5, 9, 2, 6 :: int]
   \<and> length ''abcdefgh'' = length [3, 1, 4, 1, 5, 9, 2, 6 :: int]
   \<and> select_replay ''curated'' rev_shuffle 0 [3, 1, 4, 1, 5, 9, 2, 6 :: int]
        [0, 1, 0, 1, 0, 1, 1, 1] (Some [0, 1]) 4 ''abcdefgh'' = Inr (''ecfh'', [4, 2, 5, 7], 0)
   \<and> (\<exists>xs idx g'.
         select_replay ''curated'' rev_shuffle 0 [3, 1, 4, 1, 5, 9, 2, 6 :: int]
           [0, 1, 0, 1, 0, 1, 1, 1] (Some [0, 1]) 4 ''abcdefgh'' = Inr (xs, idx, g')
       \<and> (\<forall>i < 2. class_count [0, 1, 0, 1, 0, 1, 1, 1] idx i = 2))
   \<and> (\<exists>xs idx g' k.
         select_replay ''random_large'' rev_shuffle 0 [3, 1, 4, 1, 5, 9, 2, 6 :: int]
           [0, 1, 0, 1, 0, 1, 1, 1] (Some [0, 1]) 4 ''abcdefgh'' = Inr (xs, idx, g')
       \<and> idx = take k (fst (ranked_indices ''random_large'' rev_shuffle 0
                               [3, 1, 4, 1, 5, 9, 2, 6 :: int])))"
proof -
  have h1: "\<forall>g xs. mset (fst (rev_shuffle g (xs :: nat list))) = mset xs"
    by (simp add: rev_shuffle_def)
  have h2: "length [0, 1, 0, 1, 0, 1, 1, 1 :: int] = length [3, 1, 4, 1, 5, 9, 2, 6 :: int]"
    by simp
  have h3: "length ''abcdefgh'' = length [3, 1, 4, 1, 5, 9, 2, 6 :: int]" by simp
  have v: "select_replay ''curated'' rev_shuffle 0 [3, 1, 4, 1, 5, 9, 2, 6 :: int]
        [0, 1, 0, 1, 0, 1, 1, 1] (Some [0, 1]) 4 ''abcdefgh'' = Inr (''ecfh'', [4, 2, 5, 7], 0)"
    by code_simp
  have p1: "''curated'' \<noteq> ''random_large'' \<and> ''curated'' \<noteq> ''curated_softmax''
            \<and> 0 < length [0, 1 :: nat] \<and> int (length [0, 1 :: nat]) \<le> 4"
    by simp
  have c: "\<forall>i < 2. class_count [0, 1, 0, 1, 0, 1, 1, 1] [4, 2, 5, 7] i = 2"
  proof (intro allI impI)
    fix i :: nat assume "i < 2"
    then have "i = 0 \<or> i = 1" by auto
    then show "class_count [0, 1, 0, 1, 0, 1, 1, 1] [4, 2, 5, 7] i = 2"
      by (auto simp: class_count_def)
  qed
  have b: "\<exists>xs idx g'.
         select_replay ''curated'' rev_shuffle 0 [3, 1, 4, 1, 5, 9, 2, 6 :: int]
           [0, 1, 0, 1, 0, 1, 1, 1] (Some [0, 1]) 4 ''abcdefgh'' = Inr (xs, idx, g')
       \<and> (\<forall>i < 2. class_count [0, 1, 0, 1, 0, 1, 1, 1] idx i = 2)"
    using C2_class_balanced_selection[OF h1 h2 h3, where sample_method = "''curated''"
        and ac = "[0, 1]" and batch_size_replay = 4 and g = 0,
        THEN conjunct1, THEN mp, OF p1] v c by auto
  have p2: "''random_large'' = ''random_large'' \<or> ''random_large'' = ''curated_softmax''"
    by simp
  have u: "\<exists>xs idx g' k.
         select_replay ''random_large'' rev_shuffle 0 [3, 1, 4, 1, 5, 9, 2, 6 :: int]
           [0, 1, 0, 1, 0, 1, 1, 1] (Some [0, 1]) 4 ''abcdefgh'' = Inr (xs, idx, g')
       \<and> idx = take k (fst (ranked_indices ''random_large'' rev_shuffle 0
                               [3, 1, 4, 1, 5, 9, 2, 6 :: int]))"
    using C2_class_balanced_selection[OF h1 h2 h3, where sample_method = "''random_large''"
        and allowed_classes = "Some [0, 1]" and batch_size_replay = 4 and g = 0,
        THEN conjunct2, THEN conjunct1, THEN mp, OF p2] by blast
  show ?thesis using h1 h2 h3 v b u by blast
qed

text \<open>
  \<^verbatim>\<open>curated_softmax\<close> is a curation policy other than \<^verbatim>\<open>random_large\<close> and
  \<^verbatim>\<open>uniform_large\<close>. With a replay size of 2, two allowed classes and a pool of four
  candidates labelled 0, 0, 0, 1 it replays the ranked pool as it is: three candidates
  of class 0, which is not within one of 2 / 2.
\<close>

theorem C2_curated_softmax_counterexample:
  "select_replay ''curated_softmax'' rev_shuffle 0 [3, 1, 4, 2 :: int] [0, 0, 0, 1]
      (Some [0, 1]) 2 ''abcd'' = Inr (''cadb'', [2, 0, 3, 1], 0)
   \<and> class_count [0, 0, 0, 1] [2, 0, 3, 1] 0 = 3
   \<and> \<not> within_one_of_share 3 2 2"
proof -
  have "select_replay ''curated_softmax'' rev_shuffle 0 [3, 1, 4, 2 :: int] [0, 0, 0, 1]
      (Some [0, 1]) 2 ''abcd'' = Inr (''cadb'', [2, 0, 3, 1], 0)"
    by code_simp
  moreover have "class_count [0, 0, 0, 1] [2, 0, 3, 1] 0 = 3"
    by (simp add: class_count_def)
  moreover have "\<not> within_one_of_share 3 2 2"
    by (simp add: within_one_of_share_def)
  ultimately show ?thesis by blast
qed

text \<open>
  Claim C3 at a failing input: \<^verbatim>\<open>random_large\<close> with a replay size of 2 and a pool of
  \<open>2 * 2\<close> candidates. Line 434 indexes the pool with all the shuffled positions, so the
  batch that goes on to the training step has the four candidates of the pool, not two.
\<close>

theorem C3_random_large_replays_whole_pool:
  "select_replay ''random_large'' rev_shuffle 0 [3, 1, 4, 2 :: int] [0, 0, 0, 1]
      (Some [0, 1]) 2 ''abcd'' = Inr (''bdac'', [1, 3, 0, 2], 1)
   \<and> int (length ''bdac'') \<noteq> 2"
proof -
  have "select_replay ''random_large'' rev_shuffle 0 [3, 1, 4, 2 :: int] [0, 0, 0, 1]
      (Some [0, 1]) 2 ''abcd'' = Inr (''bdac'', [1, 3, 0, 2], 1)"
    by code_simp
  then show ?thesis by simp
qed

subsection \<open>Target Labeler\<close>

lemma argmax_props:
  assumes "xs \<noteq> []"
  shows "argmax xs < length xs" "xs ! argmax xs = Max (set xs)"
    "\<forall>j < argmax xs. xs ! j < xs ! argmax xs"
proof -
  let ?P = "\<lambda>v. v \<noteq> Max (set xs)"
  have "Max (set xs) \<in> set xs" using assms by (intro Max_in) simp_all
  then have "takeWhile ?P xs \<noteq> xs" by (auto simp: takeWhile_eq_all_conv)
  then have lt: "length (takeWhile ?P xs) < length xs"
    using length_takeWhile_le[of ?P xs] by (metis le_neq_implies_less takeWhile_eq_take take_all_iff le_refl)
  show a: "argmax xs < length xs" using lt by (simp add: argmax_def)
  show m: "xs ! argmax xs = Max (set xs)"
    using nth_length_takeWhile[OF lt] by (simp add: argmax_def)
  show "\<forall>j < argmax xs. xs ! j < xs ! argmax xs"
  proof (intro allI impI)
    fix j assume j: "j < argmax xs"
    then have jl: "j < length (takeWhile ?P xs)" by (simp add: argmax_def)
    then have "takeWhile ?P xs ! j = xs ! j" by (rule takeWhile_nth)
    moreover have "takeWhile ?P xs ! j \<in> set (takeWhile ?P xs)" using jl by simp
    ultimately have ne: "xs ! j \<noteq> Max (set xs)" by (metis set_takeWhileD)
    have "xs ! j \<in> set xs" using j a by simp
    then have "xs ! j \<le> Max (set xs)" by simp
    then show "xs ! j < xs ! argmax xs" using ne m by simp
  qed
qed

lemma target_scores_class:
  assumes "mask_dict_None previous_model"
    and "size1 (slice_cols (classes_per_task * (task - 1))
                  (classify previous_model x (\<not> generative))) \<noteq> 0"
  shows "target_scores classify apply_XdGmask mask_dict_None ''class'' classes_per_task task
             generative (RTensor x) previous_model =
           Inr (RTensor (slice_cols (classes_per_task * (task - 1))
                           (classify previous_model x (\<not> generative))),
                RTensor (map argmax (rows (slice_cols (classes_per_task * (task - 1))
                           (classify previous_model x (\<not> generative))))),
                previous_model)"
  using assms by (simp add: target_scores_def max_dim1_def Let_def)

text \<open>
  Claim C8. In the class-incremental scenario, for a previous model without
  task-specific masks and a replay batch that is one tensor (generative replay with
  the flag \<^verbatim>\<open>Generative\<close>, or current replay without it), the scores of the previous
  model are cut to their first \<open>classes_per_task * (task - 1)\<close> columns, the hard labels
  are, row by row, the position of the first maximal entry of the cut scores, and with
  \<^verbatim>\<open>replay_targets\<close> one of \<^verbatim>\<open>hard\<close> and \<^verbatim>\<open>soft\<close>, as the model's interface has it, exactly one
  of the two is kept and the other is \<^verbatim>\<open>None\<close>. Some class must have been seen before and
  the model must have some output, or \<^verbatim>\<open>torch.max\<close> raises.
\<close>

theorem C8_class_incremental_targets:
  assumes "mask_dict_None previous_model"
    and "all_scores = classify previous_model x (\<not> generative)"
    and "wf_tensor2 all_scores" "0 < classes_per_task * (task - 1)" "0 < size1 all_scores"
    and "replay_targets = ''hard'' \<or> replay_targets = ''soft''"
  shows "\<exists>scores y.
           target_scores classify apply_XdGmask mask_dict_None ''class'' classes_per_task task
             generative (RTensor x) previous_model = Inr (RTensor scores, RTensor y, previous_model)
         \<and> scores = slice_cols (classes_per_task * (task - 1)) all_scores
         \<and> size1 scores = min (classes_per_task * (task - 1)) (size1 all_scores)
         \<and> size0 scores = size0 all_scores
         \<and> (\<forall>i < size0 all_scores.
               rows scores ! i = take (classes_per_task * (task - 1)) (rows all_scores ! i))
         \<and> length y = size0 all_scores
         \<and> (\<forall>i < size0 all_scores.
               y ! i < size1 scores
             \<and> rows scores ! i ! (y ! i) = Max (set (rows scores ! i))
             \<and> (\<forall>j < y ! i. rows scores ! i ! j < rows scores ! i ! (y ! i)))
         \<and> keep_targets replay_targets (RTensor scores) (RTensor y) =
             (if replay_targets = ''soft'' then (RTensor scores, RNone)
              else (RNone, RTensor y))"
proof -
  define k where "k = classes_per_task * (task - 1)"
  define scores where "scores = slice_cols k all_scores"
  define y where "y = map argmax (rows scores)"
  have w: "size1 scores = min k (size1 all_scores)" "size1 scores \<noteq> 0"
    using assms(4,5) by (simp_all add: scores_def slice_cols_def k_def)
  have r: "rows scores = map (take k) (rows all_scores)"
    by (simp add: scores_def slice_cols_def)
  have s0: "size0 scores = size0 all_scores" by (simp add: size0_def r)
  have ts: "target_scores classify apply_XdGmask mask_dict_None ''class'' classes_per_task task
             generative (RTensor x) previous_model = Inr (RTensor scores, RTensor y, previous_model)"
    unfolding y_def scores_def assms(2) k_def
    by (rule target_scores_class[where classify = classify and mask_dict_None = mask_dict_None
          and previous_model = previous_model and x = x and generative = generative
          and classes_per_task = classes_per_task and task = task,
          OF assms(1) w(2)[unfolded scores_def assms(2) k_def]])
  have rowi: "\<forall>i < size0 all_scores. rows scores ! i = take k (rows all_scores ! i)"
    by (simp add: r size0_def)
  have ly: "length y = size0 all_scores" by (simp add: y_def r size0_def)
  have am: "\<forall>i < size0 all_scores.
               y ! i < size1 scores
             \<and> rows scores ! i ! (y ! i) = Max (set (rows scores ! i))
             \<and> (\<forall>j < y ! i. rows scores ! i ! j < rows scores ! i ! (y ! i))"
  proof (intro allI impI)
    fix i assume i: "i < size0 all_scores"
    then have il: "i < length (rows all_scores)" by (simp add: size0_def)
    have "length (rows all_scores ! i) = size1 all_scores"
      using assms(3) il by (simp add: wf_tensor2_def list_all_length)
    then have len: "length (rows scores ! i) = size1 scores"
      using il by (simp add: r w(1))
    then have ne: "rows scores ! i \<noteq> []" using w(2) by auto
    have yi: "y ! i = argmax (rows scores ! i)" using il by (simp add: y_def r)
    show "y ! i < size1 scores
             \<and> rows scores ! i ! (y ! i) = Max (set (rows scores ! i))
             \<and> (\<forall>j < y ! i. rows scores ! i ! j < rows scores ! i ! (y ! i))"
      using argmax_props[OF ne] unfolding yi len by blast
  qed
  have kt: "keep_targets replay_targets (RTensor scores) (RTensor y) =
             (if replay_targets = ''soft'' then (RTensor scores, RNone)
              else (RNone, RTensor y))"
    using assms(6) by (auto simp: keep_targets_def)
  show ?thesis
    using ts w(1) s0 rowi ly am kt unfolding k_def scores_def by blast
qed

theorem C8_class_incremental_targets_witness:
  "wf_tensor2 (classify_ex 9 [1, 5, 2] (\<not> True))
   \<and> 0 < (2::nat) * (2 - 1) \<and> 0 < size1 (classify_ex 9 [1, 5, 2] (\<not> True))
   \<and> (''hard'' = ''hard'' \<or> ''hard'' = ''soft'')
   \<and> (\<exists>scores y.
         target_scores classify_ex (\<lambda>m t. m) (\<lambda>m. True) ''class'' 2 2 True (RTensor [1, 5, 2]) 9
           = Inr (RTensor scores, RTensor y, 9)
       \<and> scores = \<lparr>size1 = 2, rows = [[1, 2], [5, 10], [2, 4]]\<rparr>
       \<and> y = [1, 1, 1]
       \<and> keep_targets ''hard'' (RTensor scores) (RTensor y) = (RNone, RTensor y))"
proof -
  have h1: "(\<lambda>m :: int. True) 9" by simp
  have h2: "classify_ex 9 [1, 5, 2] (\<not> True) = classify_ex 9 [1, 5, 2] (\<not> True)" by simp
  have h3: "wf_tensor2 (classify_ex 9 [1, 5, 2] (\<not> True))"
    by (simp add: wf_tensor2_def classify_ex_def)
  have h4: "0 < (2::nat) * (2 - 1)" by simp
  have h5: "0 < size1 (classify_ex 9 [1, 5, 2] (\<not> True))" by (simp add: classify_ex_def)
  have h6: "''hard'' = ''hard'' \<or> ''hard'' = ''soft''" by simp
  have v: "target_scores classify_ex (\<lambda>m t. m) (\<lambda>m. True) ''class'' 2 2 True (RTensor [1, 5, 2]) 9
           = Inr (RTensor \<lparr>size1 = 2, rows = [[1, 2], [5, 10], [2, 4]]\<rparr>, RTensor [1, 1, 1], 9)"
    by code_simp
  obtain scores y where r:
    "target_scores classify_ex (\<lambda>m t. m) (\<lambda>m. True) ''class'' 2 2 True (RTensor [1, 5, 2]) 9
           = Inr (RTensor scores, RTensor y, 9)"
    "keep_targets ''hard'' (RTensor scores) (RTensor y) =
             (if ''hard'' = ''soft'' then (RTensor scores, RNone) else (RNone, RTensor y))"
    using C8_class_incremental_targets[where mask_dict_None = "\<lambda>m. True" and previous_model = 9
        and classify = classify_ex and x = "[1, 5, 2]" and generative = True
        and classes_per_task = 2 and task = 2 and replay_targets = "''hard''"
        and apply_XdGmask = "\<lambda>m t. m", OF h1 h2 h3 h4 h5 h6]
    by blast
  have e: "scores = \<lparr>size1 = 2, rows = [[1, 2], [5, 10], [2, 4]]\<rparr>" "y = [1, 1, 1]"
    using r(1) v by simp_all
  have k: "keep_targets ''hard'' (RTensor scores) (RTensor y) = (RNone, RTensor y)"
    using r(2) by simp
  show ?thesis using h3 h4 h5 h6 r(1) e k by blast
qed

subsection \<open>Synaptic intelligence\<close>

lemma si_update_sub_steps:
  "si_update_sub sub ps s = si_steps (map (\<lambda>(n, p). (mangle (sub @ ''.'' @ n), p)) ps) s"
  by (induction ps arbitrary: s) (auto split: sum.splits)

lemma si_steps_append:
  "si_steps (xs @ ys) s = (case si_steps xs s of Inl e \<Rightarrow> Inl e | Inr s' \<Rightarrow> si_steps ys s')"
  by (induction xs arbitrary: s) (auto split: sum.splits)

lemma si_update_steps: "si_update params s = si_steps (tracked params) s"
  by (simp add: si_update_def tracked_def si_update_sub_steps si_steps_append split: sum.splits)

lemma si_step_ready:
  assumes "si_ready W p_old k p"
  shows "si_step k p (W, p_old) =
     Inr (if requires_grad p
          then (W(k := si_W_after W p_old k p), p_old(k \<mapsto> data p))
          else (W, p_old))"
proof (cases "requires_grad p")
  case False
  then show ?thesis by (simp add: si_step_def)
next
  case True
  show ?thesis
  proof (cases "grad p")
    case None
    then show ?thesis using True by (simp add: si_step_def si_W_after_def)
  next
    case (Some g)
    from assms True Some obtain w po where
      w: "W k = Some w" "p_old k = Some po" "length g = length (data p)"
         "length po = length (data p)" "length w = length (data p)"
      by (auto simp: si_ready_def split: option.splits)
    show ?thesis using True Some w
      by (simp add: si_step_def si_increment_def si_inc_def si_W_after_def)
  qed
qed

lemma si_steps_result:
  assumes "distinct (map fst kps)"
    and "\<forall>kp \<in> set kps. si_ready W p_old (fst kp) (snd kp)"
  shows "\<exists>W' p_old'. si_steps kps (W, p_old) = Inr (W', p_old')
     \<and> (\<forall>kp \<in> set kps. requires_grad (snd kp) \<longrightarrow>
            W' (fst kp) = si_W_after W p_old (fst kp) (snd kp)
          \<and> p_old' (fst kp) = Some (data (snd kp)))
     \<and> (\<forall>k. (\<forall>kp \<in> set kps. requires_grad (snd kp) \<longrightarrow> k \<noteq> fst kp) \<longrightarrow>
            W' k = W k \<and> p_old' k = p_old k)"
  using assms
proof (induction kps arbitrary: W p_old)
  case Nil
  then show ?case by simp
next
  case (Cons kp kps)
  obtain k p where kp: "kp = (k, p)" by (cases kp)
  define W1 where "W1 = (if requires_grad p then W(k := si_W_after W p_old k p) else W)"
  define po1 where "po1 = (if requires_grad p then p_old(k \<mapsto> data p) else p_old)"
  have rdy: "si_ready W p_old k p" using Cons.prems(2) by (simp add: kp)
  have st: "si_step k p (W, p_old) = Inr (W1, po1)"
    unfolding si_step_ready[OF rdy] W1_def po1_def by simp
  have notin: "\<And>kp'. kp' \<in> set kps \<Longrightarrow> fst kp' \<noteq> k"
    using Cons.prems(1) by (auto simp: kp)
  have d: "distinct (map fst kps)" using Cons.prems(1) by simp
  have same: "\<And>k'. k' \<noteq> k \<Longrightarrow> W1 k' = W k'" "\<And>k'. k' \<noteq> k \<Longrightarrow> po1 k' = p_old k'"
    by (simp_all add: W1_def po1_def)
  have pre: "\<forall>kp' \<in> set kps. si_ready W1 po1 (fst kp') (snd kp')"
  proof
    fix kp' assume a: "kp' \<in> set kps"
    have "si_ready W p_old (fst kp') (snd kp')" using Cons.prems(2) a by simp
    then show "si_ready W1 po1 (fst kp') (snd kp')"
      unfolding si_ready_def same(1)[OF notin[OF a]] same(2)[OF notin[OF a]] .
  qed
  obtain W' p_old' where r: "si_steps kps (W1, po1) = Inr (W', p_old')"
     "\<forall>kp' \<in> set kps. requires_grad (snd kp') \<longrightarrow>
            W' (fst kp') = si_W_after W1 po1 (fst kp') (snd kp')
          \<and> p_old' (fst kp') = Some (data (snd kp'))"
     "\<forall>k''. (\<forall>kp' \<in> set kps. requires_grad (snd kp') \<longrightarrow> k'' \<noteq> fst kp') \<longrightarrow>
            W' k'' = W1 k'' \<and> p_old' k'' = po1 k''"
    using Cons.IH[OF d pre] by blast
  have keep: "W' k = W1 k" "p_old' k = po1 k"
    using r(3)[rule_format, of k] notin by blast+
  have 1: "si_steps (kp # kps) (W, p_old) = Inr (W', p_old')"
    by (simp add: kp st r(1))
  have 2: "\<forall>kp' \<in> set (kp # kps). requires_grad (snd kp') \<longrightarrow>
            W' (fst kp') = si_W_after W p_old (fst kp') (snd kp')
          \<and> p_old' (fst kp') = Some (data (snd kp'))"
  proof (intro ballI impI)
    fix kp' assume a: "kp' \<in> set (kp # kps)" "requires_grad (snd kp')"
    show "W' (fst kp') = si_W_after W p_old (fst kp') (snd kp')
          \<and> p_old' (fst kp') = Some (data (snd kp'))"
    proof (cases "kp' = kp")
      case True
      then have "requires_grad p" using a(2) kp by simp
      then show ?thesis unfolding True kp fst_conv snd_conv keep W1_def po1_def by simp
    next
      case False
      then have in': "kp' \<in> set kps" using a(1) by simp
      have ne: "fst kp' \<noteq> k" by (rule notin[OF in'])
      have "si_W_after W1 po1 (fst kp') (snd kp') = si_W_after W p_old (fst kp') (snd kp')"
        unfolding si_W_after_def same(1)[OF ne] same(2)[OF ne] ..
      then show ?thesis using r(2)[rule_format, OF in' a(2)] by simp
    qed
  qed
  have 3: "\<forall>k''. (\<forall>kp' \<in> set (kp # kps). requires_grad (snd kp') \<longrightarrow> k'' \<noteq> fst kp') \<longrightarrow>
            W' k'' = W k'' \<and> p_old' k'' = p_old k''"
  proof (intro allI impI)
    fix k'' assume a: "\<forall>kp' \<in> set (kp # kps). requires_grad (snd kp') \<longrightarrow> k'' \<noteq> fst kp'"
    then have b: "\<forall>kp' \<in> set kps. requires_grad (snd kp') \<longrightarrow> k'' \<noteq> fst kp'" by simp
    have c: "requires_grad p \<longrightarrow> k'' \<noteq> k" using a kp by simp
    have "W1 k'' = W k'' \<and> po1 k'' = p_old k''"
      using c by (simp add: W1_def po1_def)
    then show "W' k'' = W k'' \<and> p_old' k'' = p_old k''"
      using r(3) b by simp
  qed
  show ?case using 1 2 3 by blast
qed

lemma in_submoduleD:
  assumes "in_submodule sub n"
  shows "sub @ ''.'' @ drop (length sub + 1) n = n"
proof -
  have t: "sub @ ''.'' = take (length sub + 1) n"
    using assms unfolding in_submodule_def by (rule sym)
  have "sub @ ''.'' @ drop (length sub + 1) n = (sub @ ''.'') @ drop (length sub + 1) n"
    by (simp only: append_assoc)
  also have "\<dots> = take (length sub + 1) n @ drop (length sub + 1) n"
    by (simp only: t)
  also have "\<dots> = n" by (rule append_take_drop_id)
  finally show ?thesis .
qed

lemma sub_tracked:
  "map (\<lambda>(n, p). (mangle (sub @ ''.'' @ n), p)) (sub_named_parameters sub params)
     = map (\<lambda>(n, p). (mangle n, p :: 'a param)) (filter (\<lambda>(n, p). in_submodule sub n) params)"
proof -
  have "map (\<lambda>(n, p). (mangle (sub @ ''.'' @ n), p)) (sub_named_parameters sub params)
      = map (\<lambda>np. (mangle (sub @ ''.'' @ drop (length sub + 1) (fst np)), snd np))
          (filter (\<lambda>(n, p). in_submodule sub n) params)"
    unfolding sub_named_parameters_def map_map by (rule map_cong[OF refl]) auto
  also have "\<dots> = map (\<lambda>np. (mangle (fst np), snd np))
         (filter (\<lambda>(n, p). in_submodule sub n) params)"
  proof (rule map_cong[OF refl])
    fix np assume "np \<in> set (filter (\<lambda>(n, p). in_submodule sub n) params)"
    then have "in_submodule sub (fst np)" by auto
    then show "(mangle (sub @ ''.'' @ drop (length sub + 1) (fst np)), snd np)
                 = (mangle (fst np), snd np)"
      by (simp only: in_submoduleD)
  qed
  finally show ?thesis by (simp add: case_prod_unfold)
qed

lemma tracked_eq: "tracked params = map (\<lambda>(n, p). (mangle n, p)) (tracked_src params)"
  unfolding tracked_def tracked_src_def map_concat map_map comp_def sub_tracked ..

lemma in_submodule_prefix: "in_submodule sub n \<Longrightarrow> \<exists>r. n = sub @ ''.'' @ r"
  using in_submoduleD by metis

lemma prefixes_exclusive:
  "\<not> (in_submodule ''convE'' n \<and> in_submodule ''fcE'' n)"
  "\<not> (in_submodule ''convE'' n \<and> in_submodule ''classifier'' n)"
  "\<not> (in_submodule ''fcE'' n \<and> in_submodule ''classifier'' n)"
proof -
  show "\<not> (in_submodule ''convE'' n \<and> in_submodule ''fcE'' n)"
  proof
    assume "in_submodule ''convE'' n \<and> in_submodule ''fcE'' n"
    then obtain r r' where "n = ''convE'' @ ''.'' @ r" "n = ''fcE'' @ ''.'' @ r'"
      using in_submodule_prefix by blast
    then show False by simp
  qed
  show "\<not> (in_submodule ''convE'' n \<and> in_submodule ''classifier'' n)"
  proof
    assume "in_submodule ''convE'' n \<and> in_submodule ''classifier'' n"
    then obtain r r' where "n = ''convE'' @ ''.'' @ r" "n = ''classifier'' @ ''.'' @ r'"
      using in_submodule_prefix by blast
    then show False by simp
  qed
  show "\<not> (in_submodule ''fcE'' n \<and> in_submodule ''classifier'' n)"
  proof
    assume "in_submodule ''fcE'' n \<and> in_submodule ''classifier'' n"
    then obtain r r' where "n = ''fcE'' @ ''.'' @ r" "n = ''classifier'' @ ''.'' @ r'"
      using in_submodule_prefix by blast
    then show False by simp
  qed
qed

lemma set_tracked:
  "kp \<in> set (tracked params) \<longleftrightarrow>
     (\<exists>n p. (n, p) \<in> set params \<and> in_tracked_submodule n \<and> kp = (mangle n, p))"
  unfolding tracked_eq tracked_src_def in_tracked_submodule_def by auto

lemma distinct_tracked:
  assumes "distinct (map (\<lambda>np. mangle (fst np)) params)"
  shows "distinct (map fst (tracked params))"
proof -
  let ?f = "\<lambda>np :: string \<times> 'a param. mangle (fst np)"
  let ?F = "\<lambda>sub. filter (\<lambda>(n, p). in_submodule sub n) params"
  have inj: "inj_on ?f (set params)" using assms by (simp add: distinct_map)
  have d: "\<And>sub. distinct (map ?f (?F sub))"
    using assms by (rule distinct_map_filter)
  have disj: "\<And>a b. \<not> (\<exists>n. in_submodule a n \<and> in_submodule b n)
                 \<Longrightarrow> set (map ?f (?F a)) \<inter> set (map ?f (?F b)) = {}"
  proof -
    fix a b assume ex: "\<not> (\<exists>n. in_submodule a n \<and> in_submodule b n)"
    show "set (map ?f (?F a)) \<inter> set (map ?f (?F b)) = {}"
    proof (rule ccontr)
      assume "set (map ?f (?F a)) \<inter> set (map ?f (?F b)) \<noteq> {}"
      then obtain x y where xy: "x \<in> set (?F a)" "y \<in> set (?F b)" "?f x = ?f y" by auto
      then have "x \<in> set params" "y \<in> set params" by auto
      then have "x = y" using inj xy(3) by (auto dest: inj_onD)
      then have "in_submodule a (fst x) \<and> in_submodule b (fst x)" using xy(1,2) by auto
      then show False using ex by blast
    qed
  qed
  have e: "map fst (tracked params)
      = map ?f (?F ''convE'') @ map ?f (?F ''fcE'') @ map ?f (?F ''classifier'')"
    unfolding tracked_eq tracked_src_def by (simp add: case_prod_unfold comp_def)
  have d12: "set (map ?f (?F ''convE'')) \<inter> set (map ?f (?F ''fcE'')) = {}"
    by (rule disj) (use prefixes_exclusive(1) in blast)
  have d13: "set (map ?f (?F ''convE'')) \<inter> set (map ?f (?F ''classifier'')) = {}"
    by (rule disj) (use prefixes_exclusive(2) in blast)
  have d23: "set (map ?f (?F ''fcE'')) \<inter> set (map ?f (?F ''classifier'')) = {}"
    by (rule disj) (use prefixes_exclusive(3) in blast)
  have "set (map ?f (?F ''convE''))
          \<inter> (set (map ?f (?F ''fcE'')) \<union> set (map ?f (?F ''classifier''))) = {}"
    using d12 d13 by blast
  then show ?thesis
    unfolding e distinct_append set_append using d d23 by blast
qed

lemma si_init_foldl:
  fixes params :: "(string \<times> 'a::zero param) list"
  defines "f \<equiv> (\<lambda>(W :: string \<rightharpoonup> 'a list, p_old :: string \<rightharpoonup> 'a list) (n, p).
              if requires_grad p
              then (W(mangle n \<mapsto> map (\<lambda>_. 0) (data p)), p_old(mangle n \<mapsto> data p))
              else (W, p_old))"
  assumes "distinct (map (\<lambda>np. mangle (fst np)) params)"
  shows "(\<forall>np \<in> set params. requires_grad (snd np) \<longrightarrow>
            fst (foldl f (W, po) params) (mangle (fst np)) = Some (map (\<lambda>_. 0) (data (snd np)))
          \<and> snd (foldl f (W, po) params) (mangle (fst np)) = Some (data (snd np)))
       \<and> (\<forall>k. (\<forall>np \<in> set params. requires_grad (snd np) \<longrightarrow> k \<noteq> mangle (fst np)) \<longrightarrow>
            fst (foldl f (W, po) params) k = W k \<and> snd (foldl f (W, po) params) k = po k)"
  using assms(2)
proof (induction params arbitrary: W po)
  case Nil
  show ?case by simp
next
  case (Cons np params)
  define W1 where "W1 = (if requires_grad (snd np)
       then W(mangle (fst np) \<mapsto> map (\<lambda>_. 0) (data (snd np))) else W)"
  define po1 where "po1 = (if requires_grad (snd np)
       then po(mangle (fst np) \<mapsto> data (snd np)) else po)"
  have st: "foldl f (W, po) (np # params) = foldl f (W1, po1) params"
    by (simp add: f_def W1_def po1_def case_prod_unfold)
  have d: "distinct (map (\<lambda>np. mangle (fst np)) params)"
    and ni: "mangle (fst np) \<notin> (\<lambda>np. mangle (fst np)) ` set params"
    using Cons.prems by simp_all
  have notin: "\<And>np'. np' \<in> set params \<Longrightarrow> mangle (fst np') \<noteq> mangle (fst np)"
    using ni by (metis imageI)
  note ih = Cons.IH[OF d, of W1 po1]
  have keep: "fst (foldl f (W1, po1) params) (mangle (fst np)) = W1 (mangle (fst np))"
       "snd (foldl f (W1, po1) params) (mangle (fst np)) = po1 (mangle (fst np))"
    using ih notin by (metis)+
  show ?case unfolding st
  proof (intro conjI ballI allI impI)
    fix np' assume a: "np' \<in> set (np # params)" "requires_grad (snd np')"
    show "fst (foldl f (W1, po1) params) (mangle (fst np')) = Some (map (\<lambda>_. 0) (data (snd np')))"
    proof (cases "np' = np")
      case True
      then show ?thesis using a(2) keep(1) by (simp add: W1_def)
    next
      case False
      then show ?thesis using ih a by simp
    qed
    show "snd (foldl f (W1, po1) params) (mangle (fst np')) = Some (data (snd np'))"
    proof (cases "np' = np")
      case True
      then show ?thesis using a(2) keep(2) by (simp add: po1_def)
    next
      case False
      then show ?thesis using ih a by simp
    qed
  next
    fix k assume a: "\<forall>np' \<in> set (np # params). requires_grad (snd np') \<longrightarrow> k \<noteq> mangle (fst np')"
    then have b: "\<forall>np' \<in> set params. requires_grad (snd np') \<longrightarrow> k \<noteq> mangle (fst np')"
      and c: "requires_grad (snd np) \<longrightarrow> k \<noteq> mangle (fst np)" by simp_all
    have e: "W1 k = W k" "po1 k = po k" using c by (simp_all add: W1_def po1_def)
    show "fst (foldl f (W1, po1) params) k = W k" using ih b e(1) by simp
    show "snd (foldl f (W1, po1) params) k = po k" using ih b e(2) by simp
  qed
qed

lemma si_init_result:
  assumes "distinct (map (\<lambda>np. mangle (fst np)) params)"
  shows "(\<forall>np \<in> set params. requires_grad (snd np) \<longrightarrow>
            fst (si_init params) (mangle (fst np)) = Some (map (\<lambda>_. 0) (data (snd np)))
          \<and> snd (si_init params) (mangle (fst np)) = Some (data (snd np)))
       \<and> (\<forall>k. (\<forall>np \<in> set params. requires_grad (snd np) \<longrightarrow> k \<noteq> mangle (fst np)) \<longrightarrow>
            fst (si_init params) k = None \<and> snd (si_init params) k = None)"
  using si_init_foldl[OF assms, of Map.empty Map.empty] unfolding si_init_def by simp

text \<open>
  Claim C7, as the code has it. With distinct keys: (1) the dictionaries made at the
  start of a task depend on the parameters only, and hold for every trainable
  parameter a zero tensor of its shape in \<^verbatim>\<open>W\<close> and its value in \<^verbatim>\<open>p_old\<close>, and nothing
  else. (2) The update after a training step visits the trainable parameters of the
  submodules \<^verbatim>\<open>convE\<close>, \<^verbatim>\<open>fcE\<close> and \<^verbatim>\<open>classifier\<close> only: for each of them with a gradient,
  \<^verbatim>\<open>W[n]\<close> grows by \<open>-grad * (p - p_old[n])\<close>, without a gradient \<^verbatim>\<open>W[n]\<close> stays, and in both
  cases \<^verbatim>\<open>p_old[n]\<close> becomes the value after the step; the entries of all other keys,
  such as those of trainable parameters of other submodules, are left as they were.
\<close>

theorem C7_importance_accumulator:
  assumes "distinct (map (\<lambda>np. mangle (fst np)) params0)"
    and "distinct (map (\<lambda>np. mangle (fst np)) params)"
    and "\<forall>np \<in> set params. in_tracked_submodule (fst np) \<longrightarrow>
           si_ready W p_old (mangle (fst np)) (snd np)"
  shows "(\<forall>np \<in> set params0. requires_grad (snd np) \<longrightarrow>
            fst (si_init params0) (mangle (fst np)) = Some (replicate (length (data (snd np))) 0)
          \<and> snd (si_init params0) (mangle (fst np)) = Some (data (snd np)))
       \<and> (\<forall>k w. fst (si_init params0) k = Some w \<longrightarrow> (\<forall>v \<in> set w. v = 0))
       \<and> (\<exists>W' p_old'. si_update params (W, p_old) = Inr (W', p_old')
            \<and> (\<forall>np \<in> set params. requires_grad (snd np) \<and> in_tracked_submodule (fst np) \<longrightarrow>
                  (case grad (snd np) of
                     None \<Rightarrow> W' (mangle (fst np)) = W (mangle (fst np))
                   | Some g \<Rightarrow>
                       (\<exists>w po. W (mangle (fst np)) = Some w \<and> p_old (mangle (fst np)) = Some po
                          \<and> W' (mangle (fst np)) =
                              Some (map (\<lambda>i. w ! i + (- (g ! i)) * (data (snd np) ! i - po ! i))
                                      [0 ..< length (data (snd np))])))
                \<and> p_old' (mangle (fst np)) = Some (data (snd np)))
            \<and> (\<forall>k. (\<forall>np \<in> set params. requires_grad (snd np) \<and> in_tracked_submodule (fst np)
                           \<longrightarrow> k \<noteq> mangle (fst np))
                    \<longrightarrow> W' k = W k \<and> p_old' k = p_old k))"
proof (intro conjI)
  note i = si_init_result[OF assms(1)]
  show a: "\<forall>np \<in> set params0. requires_grad (snd np) \<longrightarrow>
            fst (si_init params0) (mangle (fst np)) = Some (replicate (length (data (snd np))) 0)
          \<and> snd (si_init params0) (mangle (fst np)) = Some (data (snd np))"
    using i by (simp add: map_replicate_const)
  show "\<forall>k w. fst (si_init params0) k = Some w \<longrightarrow> (\<forall>v \<in> set w. v = 0)"
  proof (intro allI impI)
    fix k w assume kw: "fst (si_init params0) k = Some w"
    have "\<not> (\<forall>np \<in> set params0. requires_grad (snd np) \<longrightarrow> k \<noteq> mangle (fst np))"
      using i kw by force
    then obtain np where "np \<in> set params0" "requires_grad (snd np)" "k = mangle (fst np)"
      by blast
    then have "w = replicate (length (data (snd np))) 0" using a kw by simp
    then show "\<forall>v \<in> set w. v = 0" by simp
  qed
next
  have d: "distinct (map fst (tracked params))" by (rule distinct_tracked[OF assms(2)])
  have rdy: "\<forall>kp \<in> set (tracked params). si_ready W p_old (fst kp) (snd kp)"
  proof
    fix kp assume "kp \<in> set (tracked params)"
    then obtain n p where np: "(n, p) \<in> set params" "in_tracked_submodule n" "kp = (mangle n, p)"
      unfolding set_tracked by blast
    then show "si_ready W p_old (fst kp) (snd kp)" using assms(3) by force
  qed
  obtain W' p_old' where r: "si_steps (tracked params) (W, p_old) = Inr (W', p_old')"
     "\<forall>kp \<in> set (tracked params). requires_grad (snd kp) \<longrightarrow>
            W' (fst kp) = si_W_after W p_old (fst kp) (snd kp)
          \<and> p_old' (fst kp) = Some (data (snd kp))"
     "\<forall>k. (\<forall>kp \<in> set (tracked params). requires_grad (snd kp) \<longrightarrow> k \<noteq> fst kp) \<longrightarrow>
            W' k = W k \<and> p_old' k = p_old k"
    using si_steps_result[OF d rdy] by blast
  have 1: "si_update params (W, p_old) = Inr (W', p_old')"
    by (simp add: si_update_steps r(1))
  have 2: "\<forall>np \<in> set params. requires_grad (snd np) \<and> in_tracked_submodule (fst np) \<longrightarrow>
                  (case grad (snd np) of
                     None \<Rightarrow> W' (mangle (fst np)) = W (mangle (fst np))
                   | Some g \<Rightarrow>
                       (\<exists>w po. W (mangle (fst np)) = Some w \<and> p_old (mangle (fst np)) = Some po
                          \<and> W' (mangle (fst np)) =
                              Some (map (\<lambda>i. w ! i + (- (g ! i)) * (data (snd np) ! i - po ! i))
                                      [0 ..< length (data (snd np))])))
                \<and> p_old' (mangle (fst np)) = Some (data (snd np))"
  proof (intro ballI impI)
    fix np assume a: "np \<in> set params" "requires_grad (snd np) \<and> in_tracked_submodule (fst np)"
    define k where "k = mangle (fst np)"
    have t: "(k, snd np) \<in> set (tracked params)"
      unfolding set_tracked k_def using a by (metis prod.collapse)
    have w: "W' k = si_W_after W p_old k (snd np)" "p_old' k = Some (data (snd np))"
      using r(2) t a(2) by force+
    have sr: "si_ready W p_old k (snd np)" using assms(3) a unfolding k_def by blast
    have "case grad (snd np) of
            None \<Rightarrow> W' k = W k
          | Some g \<Rightarrow>
              (\<exists>w po. W k = Some w \<and> p_old k = Some po
                 \<and> W' k = Some (map (\<lambda>i. w ! i + (- (g ! i)) * (data (snd np) ! i - po ! i))
                                  [0 ..< length (data (snd np))]))"
      using sr a(2) w(1)
      by (auto simp: si_ready_def si_W_after_def si_inc_def split: option.splits)
    then show "(case grad (snd np) of
                     None \<Rightarrow> W' (mangle (fst np)) = W (mangle (fst np))
                   | Some g \<Rightarrow>
                       (\<exists>w po. W (mangle (fst np)) = Some w \<and> p_old (mangle (fst np)) = Some po
                          \<and> W' (mangle (fst np)) =
                              Some (map (\<lambda>i. w ! i + (- (g ! i)) * (data (snd np) ! i - po ! i))
                                      [0 ..< length (data (snd np))])))
                \<and> p_old' (mangle (fst np)) = Some (data (snd np))"
      using w(2) unfolding k_def by blast
  qed
  have 3: "\<forall>k. (\<forall>np \<in> set params. requires_grad (snd np) \<and> in_tracked_submodule (fst np)
                           \<longrightarrow> k \<noteq> mangle (fst np))
                    \<longrightarrow> W' k = W k \<and> p_old' k = p_old k"
  proof (intro allI impI)
    fix k assume a: "\<forall>np \<in> set params. requires_grad (snd np) \<and> in_tracked_submodule (fst np)
                           \<longrightarrow> k \<noteq> mangle (fst np)"
    have "\<forall>kp \<in> set (tracked params). requires_grad (snd kp) \<longrightarrow> k \<noteq> fst kp"
    proof (intro ballI impI)
      fix kp assume b: "kp \<in> set (tracked params)" "requires_grad (snd kp)"
      then obtain n p where np: "(n, p) \<in> set params" "in_tracked_submodule n" "kp = (mangle n, p)"
        unfolding set_tracked by blast
      then show "k \<noteq> fst kp" using a b(2) by force
    qed
    then show "W' k = W k \<and> p_old' k = p_old k" using r(3) by blast
  qed
  show "\<exists>W' p_old'. si_update params (W, p_old) = Inr (W', p_old')
            \<and> (\<forall>np \<in> set params. requires_grad (snd np) \<and> in_tracked_submodule (fst np) \<longrightarrow>
                  (case grad (snd np) of
                     None \<Rightarrow> W' (mangle (fst np)) = W (mangle (fst np))
                   | Some g \<Rightarrow>
                       (\<exists>w po. W (mangle (fst np)) = Some w \<and> p_old (mangle (fst np)) = Some po
                          \<and> W' (mangle (fst np)) =
                              Some (map (\<lambda>i. w ! i + (- (g ! i)) * (data (snd np) ! i - po ! i))
                                      [0 ..< length (data (snd np))])))
                \<and> p_old' (mangle (fst np)) = Some (data (snd np)))
            \<and> (\<forall>k. (\<forall>np \<in> set params. requires_grad (snd np) \<and> in_tracked_submodule (fst np)
                           \<longrightarrow> k \<noteq> mangle (fst np))
                    \<longrightarrow> W' k = W k \<and> p_old' k = p_old k)"
    using 1 2 3 by blast
qed

lemma si_init_params_before:
  "fst (si_init params_before) ''fcE__weight'' = Some [0, 0]"
  "snd (si_init params_before) ''fcE__weight'' = Some [1, 2]"
  "fst (si_init params_before) ''fcD__weight'' = Some [0]"
  "snd (si_init params_before) ''fcD__weight'' = Some [1]"
  "fst (si_init params_before) ''classifier__bias'' = Some [0]"
  "snd (si_init params_before) ''classifier__bias'' = Some [5]"
  by (simp_all add: si_init_def params_before_def mangle_def)

theorem C7_importance_accumulator_witness:
  "distinct (map (\<lambda>np. mangle (fst np)) params_before)
   \<and> distinct (map (\<lambda>np. mangle (fst np)) params_after)
   \<and> list_all (\<lambda>np. in_tracked_submodule (fst np) \<longrightarrow>
         si_ready (fst (si_init params_before)) (snd (si_init params_before))
           (mangle (fst np)) (snd np)) params_after
   \<and> si_lookup (si_update params_after (si_init params_before)) ''fcE__weight''
       = Inr (Some [- 2, 0], Some [3, 2])
   \<and> si_lookup (si_update params_after (si_init params_before)) ''classifier__bias''
       = Inr (Some [0], Some [5])"
proof -
  define W0 where "W0 = fst (si_init params_before)"
  define po0 where "po0 = snd (si_init params_before)"
  have s0: "si_init params_before = (W0, po0)" by (simp add: W0_def po0_def)
  have h1: "distinct (map (\<lambda>np. mangle (fst np)) params_before)"
    by (simp add: params_before_def mangle_def)
  have h2: "distinct (map (\<lambda>np. mangle (fst np)) params_after)"
    by (simp add: params_after_def mangle_def)
  have m: "mangle ''fcE.weight'' = ''fcE__weight''"
    "mangle ''classifier.bias'' = ''classifier__bias''"
    by (simp_all add: mangle_def)
  have t: "in_tracked_submodule ''fcE.weight''" "in_tracked_submodule ''classifier.bias''"
    "\<not> in_tracked_submodule ''fcD.weight''"
    by (simp_all add: in_tracked_submodule_def in_submodule_def)
  have h3: "\<forall>np \<in> set params_after. in_tracked_submodule (fst np) \<longrightarrow>
         si_ready W0 po0 (mangle (fst np)) (snd np)"
    using si_init_params_before t unfolding W0_def po0_def
    by (simp add: params_after_def si_ready_def m)
  obtain W' p_old' where r: "si_update params_after (W0, po0) = Inr (W', p_old')"
    "\<forall>np \<in> set params_after. requires_grad (snd np) \<and> in_tracked_submodule (fst np) \<longrightarrow>
        (case grad (snd np) of
           None \<Rightarrow> W' (mangle (fst np)) = W0 (mangle (fst np))
         | Some g \<Rightarrow>
             (\<exists>w po. W0 (mangle (fst np)) = Some w \<and> po0 (mangle (fst np)) = Some po
                \<and> W' (mangle (fst np)) =
                    Some (map (\<lambda>i. w ! i + (- (g ! i)) * (data (snd np) ! i - po ! i))
                            [0 ..< length (data (snd np))])))
      \<and> p_old' (mangle (fst np)) = Some (data (snd np))"
    using C7_importance_accumulator[OF h1 h2 h3] by blast
  have e: "(''fcE.weight'', \<lparr>requires_grad = True, data = [3, 2], grad = Some [1, 1 :: int]\<rparr>)
             \<in> set params_after"
      "(''classifier.bias'', \<lparr>requires_grad = True, data = [5], grad = None :: int list option\<rparr>)
             \<in> set params_after"
    by (simp_all add: params_after_def)
  have a: "W' ''fcE__weight'' = Some [- 2, 0]" "p_old' ''fcE__weight'' = Some [3, 2]"
    using r(2)[rule_format, OF e(1)] t(1) si_init_params_before(1,2)
    unfolding W0_def[symmetric] po0_def[symmetric]
    by (auto simp: m upt_rec)
  have b: "W' ''classifier__bias'' = Some [0]" "p_old' ''classifier__bias'' = Some [5]"
    using r(2)[rule_format, OF e(2)] t(2) si_init_params_before(5)
    unfolding W0_def[symmetric] po0_def[symmetric]
    by (auto simp: m)
  have h3': "list_all (\<lambda>np. in_tracked_submodule (fst np) \<longrightarrow>
         si_ready W0 po0 (mangle (fst np)) (snd np)) params_after"
    using h3 unfolding list_all_iff .
  show ?thesis
    using h1 h2 h3' a b unfolding s0 r(1) si_lookup_def W0_def[symmetric] po0_def[symmetric]
    by simp
qed

text \<open>
  The weight of the decoder is trainable and has an entry in \<^verbatim>\<open>W\<close> and in \<^verbatim>\<open>p_old\<close>. The
  training step moves it from 1 to 2 with gradient 1, so that the update of the claim
  would add \<open>-1\<close> to its entry in \<^verbatim>\<open>W\<close> and store 2 in \<^verbatim>\<open>p_old\<close>. The three loops do not
  visit it: both entries stay as they were.
\<close>

theorem C7_decoder_parameter_counterexample:
  "si_lookup (Inr (si_init params_before)) ''fcD__weight'' = Inr (Some [0], Some [1])
   \<and> si_lookup (si_update params_after (si_init params_before)) ''fcD__weight''
       = Inr (Some [0], Some [1])
   \<and> si_increment [0] [1] [2] [1 :: int] = Inr [- 1]"
proof -
  have 1: "si_lookup (Inr (si_init params_before)) ''fcD__weight'' = Inr (Some [0], Some [1])"
    using si_init_params_before(3,4) by (simp add: si_lookup_def case_prod_unfold)
  have 2: "si_lookup (si_update params_after (si_init params_before)) ''fcD__weight''
       = Inr (Some [0], Some [1])"
    by code_simp
  have 3: "si_increment [0] [1] [2] [1 :: int] = Inr [- 1]"
    by (simp add: si_increment_def)
  show ?thesis using 1 2 3 by blast
qed

end
